theory Spec2Isabelle
  imports Main "HOL-Library.Multiset" "HOL-Library.Monad_Syntax"
begin

section \<open>Data model of ordered\_map.go\<close>

text \<open>
  \<^verbatim>\<open>type Pair[K comparable, V any] struct { Key K; Value V }\<close>
\<close>

record ('k, 'v) Pair_kv =
  Key :: 'k
  Value :: 'v

text \<open>
  The errors the package returns: the sentinel \<^verbatim>\<open>ErrComparatorRequired\<close> and the three
  \<^verbatim>\<open>fmt.Errorf\<close> values, each carrying the key its message prints:
  \<^verbatim>\<open>"upsert requires fn when key exists: %v"\<close>, \<^verbatim>\<open>"key already exists: %v"\<close>,
  \<^verbatim>\<open>"target key not found: %v"\<close>.
\<close>

datatype 'k error =
    ErrComparatorRequired
  | ErrUpsertRequiresFn 'k
  | ErrKeyExists 'k
  | ErrTargetNotFound 'k

text \<open>
  \<^verbatim>\<open>type orderedMapConfig[K comparable] struct { capacity int; less func(a, b K) bool }\<close>
  A nil function value is \<open>None\<close>.
\<close>

record 'k orderedMapConfig =
  capacity :: int
  cfg_less :: "('k \<Rightarrow> 'k \<Rightarrow> bool) option"

text \<open>
  \<^verbatim>\<open>type Option[K comparable] func(*orderedMapConfig[K])\<close>: the two constructors of
  options the package exports, each standing for the closure it returns.
\<close>

datatype 'k MapOption =
    WithCapacity int
  | WithComparator "('k \<Rightarrow> 'k \<Rightarrow> bool) option"

fun apply_option :: "'k MapOption \<Rightarrow> 'k orderedMapConfig \<Rightarrow> 'k orderedMapConfig" where
  "apply_option (WithCapacity n) cfg = (if n > 0 then cfg\<lparr>capacity := n\<rparr> else cfg)"
| "apply_option (WithComparator l) cfg = cfg\<lparr>cfg_less := l\<rparr>"

text \<open>
  \<^verbatim>\<open>type OrderedMap[K comparable, V any] struct { mu; data map[K]V; order []K; less }\<close>
  The mutex has no sequential content. The capacity given to \<^verbatim>\<open>make\<close> is an allocation
  hint only and is not part of the value of a map or a slice.
\<close>

record ('k, 'v) OrderedMap =
  data :: "'k \<rightharpoonup> 'v"
  order :: "'k list"
  less_fn :: "('k \<Rightarrow> 'k \<Rightarrow> bool) option"

text \<open>The loop of \<^verbatim>\<open>NewOrderedMap\<close> over its options; a nil option is skipped.\<close>

fun apply_options :: "'k MapOption option list \<Rightarrow> 'k orderedMapConfig \<Rightarrow> 'k orderedMapConfig" where
  "apply_options [] cfg = cfg"
| "apply_options (None # opts) cfg = apply_options opts cfg"
| "apply_options (Some opt # opts) cfg = apply_options opts (apply_option opt cfg)"

definition NewOrderedMap :: "'k MapOption option list \<Rightarrow> ('k, 'v) OrderedMap" where
  "NewOrderedMap opts =
     (let cfg = apply_options opts \<lparr>capacity = 0, cfg_less = None\<rparr>
      in \<lparr>data = Map.empty, order = [], less_fn = cfg_less cfg\<rparr>)"

section \<open>Operations\<close>

text \<open>
  Reading a Go map at a key it does not hold yields the zero value of \<open>V\<close>; the zero
  value is the parameter \<open>z\<close> of every operation that can produce it.
\<close>

definition map_index :: "'v \<Rightarrow> ('k \<rightharpoonup> 'v) \<Rightarrow> 'k \<Rightarrow> 'v" where
  "map_index z d k = (case d k of None \<Rightarrow> z | Some v \<Rightarrow> v)"

definition Set :: "('k, 'v) OrderedMap \<Rightarrow> 'k \<Rightarrow> 'v \<Rightarrow> ('k, 'v) OrderedMap" where
  "Set m key val =
     (case data m key of
        Some _ \<Rightarrow> m\<lparr>data := (data m)(key \<mapsto> val)\<rparr>
      | None \<Rightarrow> m\<lparr>data := (data m)(key \<mapsto> val), order := order m @ [key]\<rparr>)"

text \<open>
  \<^verbatim>\<open>Upsert(key, newVal, fn)\<close>. The callback is a Go closure: it may read and write state
  of its caller, so it is a function of the old value and of a caller state \<open>'s\<close>, which
  \<open>Upsert\<close> threads through. A nil callback is \<open>None\<close>. The result is the triple the
  method returns, the container and the caller state afterwards.
\<close>

definition Upsert ::
  "'v \<Rightarrow> ('k, 'v) OrderedMap \<Rightarrow> 'k \<Rightarrow> 'v \<Rightarrow> ('v \<Rightarrow> 's \<Rightarrow> 'v \<times> 's) option \<Rightarrow> 's
     \<Rightarrow> ('v \<times> bool \<times> 'k error option) \<times> ('k, 'v) OrderedMap \<times> 's" where
  "Upsert z m key newVal fn s =
     (case data m key of
        Some old \<Rightarrow>
          (case fn of
             None \<Rightarrow> ((z, False, Some (ErrUpsertRequiresFn key)), m, s)
           | Some f \<Rightarrow>
               (let (updated, s') = f old s
                in ((updated, False, None), m\<lparr>data := (data m)(key \<mapsto> updated)\<rparr>, s')))
      | None \<Rightarrow>
          ((newVal, True, None),
           m\<lparr>data := (data m)(key \<mapsto> newVal), order := order m @ [key]\<rparr>, s))"

definition Get :: "'v \<Rightarrow> ('k, 'v) OrderedMap \<Rightarrow> 'k \<Rightarrow> 'v \<times> bool" where
  "Get z m key = (case data m key of None \<Rightarrow> (z, False) | Some v \<Rightarrow> (v, True))"

definition Has :: "('k, 'v) OrderedMap \<Rightarrow> 'k \<Rightarrow> bool" where
  "Has m key = (case data m key of None \<Rightarrow> False | Some _ \<Rightarrow> True)"

text \<open>
  \<^verbatim>\<open>removeFromOrder\<close>: the first index holding the key is cut out,
  \<^verbatim>\<open>append(m.order[:i], m.order[i+1:]...)\<close>; without such an index the slice is kept.
\<close>

fun removeFromOrder_loop :: "'k list \<Rightarrow> nat \<Rightarrow> 'k list \<Rightarrow> 'k \<Rightarrow> 'k list" where
  "removeFromOrder_loop ord i [] key = ord"
| "removeFromOrder_loop ord i (k # ks) key =
     (if k = key then take i ord @ drop (i + 1) ord
      else removeFromOrder_loop ord (i + 1) ks key)"

definition removeFromOrder :: "('k, 'v) OrderedMap \<Rightarrow> 'k \<Rightarrow> ('k, 'v) OrderedMap" where
  "removeFromOrder m key = m\<lparr>order := removeFromOrder_loop (order m) 0 (order m) key\<rparr>"

definition Delete :: "'v \<Rightarrow> ('k, 'v) OrderedMap \<Rightarrow> 'k \<Rightarrow> ('v \<times> bool) \<times> ('k, 'v) OrderedMap" where
  "Delete z m key =
     (case data m key of
        None \<Rightarrow> ((z, False), m)
      | Some val \<Rightarrow> ((val, True), removeFromOrder (m\<lparr>data := (data m)(key := None)\<rparr>) key))"

definition Clear :: "('k, 'v) OrderedMap \<Rightarrow> ('k, 'v) OrderedMap" where
  "Clear m = m\<lparr>data := Map.empty, order := take 0 (order m)\<rparr>"

definition Pairs :: "'v \<Rightarrow> ('k, 'v) OrderedMap \<Rightarrow> ('k, 'v) Pair_kv list" where
  "Pairs z m = map (\<lambda>k. \<lparr>Key = k, Value = map_index z (data m) k\<rparr>) (order m)"

definition Keys :: "('k, 'v) OrderedMap \<Rightarrow> 'k list" where
  "Keys m = [] @ order m"

definition Values :: "'v \<Rightarrow> ('k, 'v) OrderedMap \<Rightarrow> 'v list" where
  "Values z m = map (\<lambda>k. map_index z (data m) k) (order m)"

text \<open>\<^verbatim>\<open>indexOf\<close>: the first index holding the key, or \<open>-1\<close>.\<close>

fun indexOf_loop :: "nat \<Rightarrow> 'k list \<Rightarrow> 'k \<Rightarrow> int" where
  "indexOf_loop i [] key = - 1"
| "indexOf_loop i (k # ks) key = (if k = key then int i else indexOf_loop (i + 1) ks key)"

definition indexOf :: "('k, 'v) OrderedMap \<Rightarrow> 'k \<Rightarrow> int" where
  "indexOf m key = indexOf_loop 0 (order m) key"

text \<open>
  The built-in \<^verbatim>\<open>copy(s[d:], s[j:])\<close> on one slice \<open>s\<close>: it moves
  \<open>min (len s - d) (len s - j)\<close> elements as if through a buffer, so overlapping ranges
  read the old contents.
\<close>

definition copy_within :: "'a list \<Rightarrow> nat \<Rightarrow> nat \<Rightarrow> 'a list" where
  "copy_within s d j =
     (let n = min (length s - d) (length s - j)
      in take d s @ take n (drop j s) @ drop (d + n) s)"

definition InsertBefore ::
  "('k, 'v) OrderedMap \<Rightarrow> 'k \<Rightarrow> 'k \<Rightarrow> 'v \<Rightarrow> 'k error option \<times> ('k, 'v) OrderedMap" where
  "InsertBefore m target key val =
     (case data m key of
        Some _ \<Rightarrow> (Some (ErrKeyExists key), m)
      | None \<Rightarrow>
          (let idx = indexOf m target
           in if idx = - 1 then (Some (ErrTargetNotFound target), m)
              else
                (let ord1 = order m @ [key];
                     ord2 = copy_within ord1 (nat idx + 1) (nat idx);
                     ord3 = ord2[nat idx := key]
                 in (None, m\<lparr>data := (data m)(key \<mapsto> val), order := ord3\<rparr>))))"

definition InsertAfter ::
  "('k, 'v) OrderedMap \<Rightarrow> 'k \<Rightarrow> 'k \<Rightarrow> 'v \<Rightarrow> 'k error option \<times> ('k, 'v) OrderedMap" where
  "InsertAfter m target key val =
     (case data m key of
        Some _ \<Rightarrow> (Some (ErrKeyExists key), m)
      | None \<Rightarrow>
          (let idx = indexOf m target
           in if idx = - 1 then (Some (ErrTargetNotFound target), m)
              else
                (let insertPos = nat idx + 1;
                     ord1 = order m @ [key];
                     ord2 = copy_within ord1 (insertPos + 1) insertPos;
                     ord3 = ord2[insertPos := key]
                 in (None, m\<lparr>data := (data m)(key \<mapsto> val), order := ord3\<rparr>))))"

section \<open>The stable sort behind SortedPairs\<close>

text \<open>
  \<^verbatim>\<open>sort.SliceStable(pairs, less)\<close> of the Go standard library (package \<^verbatim>\<open>sort\<close>) runs
  \<^verbatim>\<open>stable(data, n)\<close> with \<open>n\<close> the length of the slice; \<^verbatim>\<open>stable\<close>, \<^verbatim>\<open>insertionSort\<close>,
  \<^verbatim>\<open>symMerge\<close>, \<^verbatim>\<open>rotate\<close> and \<^verbatim>\<open>swapRange\<close> work on the slice through
  \<^verbatim>\<open>data.Less(i, j)\<close> and \<^verbatim>\<open>data.Swap(i, j)\<close> only. The slice is a list; \<open>lt\<close> is the
  comparison of two elements, so \<^verbatim>\<open>Less(i, j)\<close> is \<open>lt (xs ! i) (xs ! j)\<close>. These
  functions belong to the Go distribution (file \<^verbatim>\<open>zsortfunc.go\<close>), not to the repository.
  Indices are naturals: \<^verbatim>\<open>stable\<close> calls \<^verbatim>\<open>insertionSort\<close> with \<open>a \<le> b \<le> n\<close> and
  \<^verbatim>\<open>symMerge\<close> with \<open>a < m < b \<le> n\<close>, and \<^verbatim>\<open>symMerge\<close> calls itself and \<^verbatim>\<open>rotate\<close>
  under the same bounds; there no difference the code forms is negative and every index
  is below \<open>n\<close>.

  A loop or a recursion that ends only for some arguments (the loop of \<^verbatim>\<open>rotate\<close>, which
  needs both lengths positive; the loops of \<^verbatim>\<open>stable\<close>, which need a positive block
  size; \<^verbatim>\<open>symMerge\<close>, which calls \<^verbatim>\<open>rotate\<close>) is a partial function into \<open>option\<close>:
  \<open>None\<close> is the call that does not return.
\<close>

definition Swap :: "nat \<Rightarrow> nat \<Rightarrow> 'a list \<Rightarrow> 'a list" where
  "Swap i j xs = xs[i := xs ! j, j := xs ! i]"

text \<open>
  \<^verbatim>\<open>for j := i; j > a && data.Less(j, j-1); j-- { data.Swap(j, j-1) }\<close>
\<close>

fun insertionSort_inner :: "('a \<Rightarrow> 'a \<Rightarrow> bool) \<Rightarrow> nat \<Rightarrow> nat \<Rightarrow> 'a list \<Rightarrow> 'a list" where
  "insertionSort_inner lt a j xs =
     (if j > a \<and> lt (xs ! j) (xs ! (j - 1))
      then insertionSort_inner lt a (j - 1) (Swap j (j - 1) xs)
      else xs)"

declare insertionSort_inner.simps [simp del]

text \<open>\<^verbatim>\<open>for i := a + 1; i < b; i++ { ... }\<close>\<close>

function insertionSort_outer :: "('a \<Rightarrow> 'a \<Rightarrow> bool) \<Rightarrow> nat \<Rightarrow> nat \<Rightarrow> nat \<Rightarrow> 'a list \<Rightarrow> 'a list" where
  "insertionSort_outer lt a b i xs =
     (if i < b then insertionSort_outer lt a b (i + 1) (insertionSort_inner lt a i xs) else xs)"
  by pat_completeness auto
termination
  by (relation "measure (\<lambda>(lt, a, b, i, xs). b - i)") auto

declare insertionSort_outer.simps [simp del]

definition insertionSort_func :: "('a \<Rightarrow> 'a \<Rightarrow> bool) \<Rightarrow> 'a list \<Rightarrow> nat \<Rightarrow> nat \<Rightarrow> 'a list" where
  "insertionSort_func lt xs a b = insertionSort_outer lt a b (a + 1) xs"

text \<open>
  The three binary searches of \<^verbatim>\<open>symMerge\<close> are one loop with three tests \<open>P\<close>:
  \<^verbatim>\<open>for i < j { h := int(uint(i+j) >> 1); if P(h) { i = h + 1 } else { j = h } }\<close>,
  after which \<open>i\<close> is read.
\<close>

function search_loop :: "(nat \<Rightarrow> bool) \<Rightarrow> nat \<Rightarrow> nat \<Rightarrow> nat" where
  "search_loop P i j =
     (if i < j
      then (let h = (i + j) div 2 in if P h then search_loop P (h + 1) j else search_loop P i h)
      else i)"
  by pat_completeness auto
termination
  by (relation "measure (\<lambda>(P, i, j). j - i)") auto

declare search_loop.simps [simp del]

text \<open>\<^verbatim>\<open>swapRange\<close>: \<^verbatim>\<open>for i := 0; i < n; i++ { data.Swap(a+i, b+i) }\<close>\<close>

function swapRange_loop :: "'a list \<Rightarrow> nat \<Rightarrow> nat \<Rightarrow> nat \<Rightarrow> nat \<Rightarrow> 'a list" where
  "swapRange_loop xs a b n i =
     (if i < n then swapRange_loop (Swap (a + i) (b + i) xs) a b n (i + 1) else xs)"
  by pat_completeness auto
termination
  by (relation "measure (\<lambda>(xs, a, b, n, i). n - i)") auto

declare swapRange_loop.simps [simp del]

definition swapRange_func :: "'a list \<Rightarrow> nat \<Rightarrow> nat \<Rightarrow> nat \<Rightarrow> 'a list" where
  "swapRange_func xs a b n = swapRange_loop xs a b n 0"

text \<open>
  \<^verbatim>\<open>rotate(data, a, m, b)\<close> exchanges the blocks \<^verbatim>\<open>data[a:m]\<close> and \<^verbatim>\<open>data[m:b]\<close>:
  \<^verbatim>\<open>i := m - a; j := b - m;
  for i != j { if i > j { swapRange(data, m-i, m, j); i -= j }
               else { swapRange(data, m-i, m+j-i, i); j -= i } }
  swapRange(data, m-i, m, i)\<close>
  With exactly one of \<open>i\<close>, \<open>j\<close> zero the loop does not end.
\<close>

partial_function (option) rotate_loop :: "'a list \<Rightarrow> nat \<Rightarrow> nat \<Rightarrow> nat \<Rightarrow> ('a list \<times> nat) option" where
  "rotate_loop xs m i j =
     (if i \<noteq> j
      then (if i > j
            then rotate_loop (swapRange_func xs (m - i) m j) m (i - j) j
            else rotate_loop (swapRange_func xs (m - i) (m + j - i) i) m i (j - i))
      else Some (xs, i))"

definition rotate_func :: "'a list \<Rightarrow> nat \<Rightarrow> nat \<Rightarrow> nat \<Rightarrow> 'a list option" where
  "rotate_func xs a m b =
     do { (xs', i) \<leftarrow> rotate_loop xs m (m - a) (b - m);
          Some (swapRange_func xs' (m - i) m i) }"

text \<open>
  The two loops of \<^verbatim>\<open>symMerge\<close> that move one element into place:
  \<^verbatim>\<open>for k := a; k < i-1; k++ { data.Swap(k, k+1) }\<close> and
  \<^verbatim>\<open>for k := m; k > i; k-- { data.Swap(k, k-1) }\<close>.
\<close>

function shift_up :: "'a list \<Rightarrow> nat \<Rightarrow> nat \<Rightarrow> 'a list" where
  "shift_up xs k e = (if k < e then shift_up (Swap k (k + 1) xs) (k + 1) e else xs)"
  by pat_completeness auto
termination
  by (relation "measure (\<lambda>(xs, k, e). e - k)") auto

declare shift_up.simps [simp del]

function shift_down :: "'a list \<Rightarrow> nat \<Rightarrow> nat \<Rightarrow> 'a list" where
  "shift_down xs k i = (if k > i then shift_down (Swap k (k - 1) xs) (k - 1) i else xs)"
  by pat_completeness auto
termination
  by (relation "measure (\<lambda>(xs, k, i). k)") auto

declare shift_down.simps [simp del]

text \<open>
  \<^verbatim>\<open>symMerge(data, a, m, b)\<close> merges the sorted runs \<^verbatim>\<open>data[a:m]\<close> and \<^verbatim>\<open>data[m:b]\<close>.
  A left run of one element is inserted into the right run, a right run of one element
  into the left run; otherwise a binary search finds where to cut both runs, the two inner
  pieces are exchanged by \<^verbatim>\<open>rotate\<close>, and the two halves are merged recursively.
\<close>

partial_function (option) symMerge_func ::
  "('a \<Rightarrow> 'a \<Rightarrow> bool) \<Rightarrow> 'a list \<Rightarrow> nat \<Rightarrow> nat \<Rightarrow> nat \<Rightarrow> 'a list option" where
  "symMerge_func lt xs a m b =
     (if m - a = 1 then
        (let i = search_loop (\<lambda>h. lt (xs ! h) (xs ! a)) m b
         in Some (shift_up xs a (i - 1)))
      else if b - m = 1 then
        (let i = search_loop (\<lambda>h. \<not> lt (xs ! m) (xs ! h)) a m
         in Some (shift_down xs m i))
      else
        (let mid = (a + b) div 2;
             n = mid + m;
             start = (if m > mid then n - b else a);
             r = (if m > mid then mid else m);
             p = n - 1;
             start = search_loop (\<lambda>c. \<not> lt (xs ! (p - c)) (xs ! c)) start r;
             end = n - start
         in do {
              xs1 \<leftarrow> (if start < m \<and> m < end then rotate_func xs start m end else Some xs);
              xs2 \<leftarrow> (if a < start \<and> start < mid then symMerge_func lt xs1 a start mid else Some xs1);
              (if mid < end \<and> end < b then symMerge_func lt xs2 mid end b else Some xs2)
            }))"

text \<open>
  \<^verbatim>\<open>stable(data, n)\<close>: blocks of \<^verbatim>\<open>blockSize := 20\<close> elements are sorted by insertion,
  \<^verbatim>\<open>a, b := 0, blockSize
  for b <= n { insertionSort(data, a, b); a = b; b += blockSize }
  insertionSort(data, a, n)\<close>
  and then merged pairwise, the block size doubling after each pass:
  \<^verbatim>\<open>for blockSize < n {
    a, b = 0, 2*blockSize
    for b <= n { symMerge(data, a, a+blockSize, b); a = b; b += 2 * blockSize }
    if m := a + blockSize; m < n { symMerge(data, a, m, n) }
    blockSize *= 2 }\<close>
\<close>

partial_function (option) stable_insertion_loop ::
  "('a \<Rightarrow> 'a \<Rightarrow> bool) \<Rightarrow> nat \<Rightarrow> nat \<Rightarrow> 'a list \<Rightarrow> nat \<Rightarrow> nat \<Rightarrow> ('a list \<times> nat) option" where
  "stable_insertion_loop lt n blockSize xs a b =
     (if b \<le> n
      then stable_insertion_loop lt n blockSize (insertionSort_func lt xs a b) b (b + blockSize)
      else Some (xs, a))"

partial_function (option) stable_merge_loop ::
  "('a \<Rightarrow> 'a \<Rightarrow> bool) \<Rightarrow> nat \<Rightarrow> nat \<Rightarrow> 'a list \<Rightarrow> nat \<Rightarrow> nat \<Rightarrow> ('a list \<times> nat) option" where
  "stable_merge_loop lt n blockSize xs a b =
     (if b \<le> n
      then do { xs' \<leftarrow> symMerge_func lt xs a (a + blockSize) b;
                stable_merge_loop lt n blockSize xs' b (b + 2 * blockSize) }
      else Some (xs, a))"

partial_function (option) stable_pass_loop ::
  "('a \<Rightarrow> 'a \<Rightarrow> bool) \<Rightarrow> nat \<Rightarrow> 'a list \<Rightarrow> nat \<Rightarrow> 'a list option" where
  "stable_pass_loop lt n xs blockSize =
     (if blockSize < n
      then do { (xs1, a) \<leftarrow> stable_merge_loop lt n blockSize xs 0 (2 * blockSize);
                xs2 \<leftarrow> (let m = a + blockSize
                         in if m < n then symMerge_func lt xs1 a m n else Some xs1);
                stable_pass_loop lt n xs2 (blockSize * 2) }
      else Some xs)"

definition stable_func :: "('a \<Rightarrow> 'a \<Rightarrow> bool) \<Rightarrow> 'a list \<Rightarrow> nat \<Rightarrow> 'a list option" where
  "stable_func lt xs n =
     do { (xs1, a) \<leftarrow> stable_insertion_loop lt n 20 xs 0 20;
          stable_pass_loop lt n (insertionSort_func lt xs1 a n) 20 }"

definition SliceStable :: "('a \<Rightarrow> 'a \<Rightarrow> bool) \<Rightarrow> 'a list \<Rightarrow> 'a list option" where
  "SliceStable lt xs = stable_func lt xs (length xs)"

declare rotate_loop.simps [code]
declare symMerge_func.simps [code]
declare stable_insertion_loop.simps [code]
declare stable_merge_loop.simps [code]
declare stable_pass_loop.simps [code]

text \<open>
  \<^verbatim>\<open>SortedPairs(less)\<close>: the comparator is resolved, the snapshot is built as in
  \<^verbatim>\<open>Pairs\<close>, and the snapshot is sorted with
  \<^verbatim>\<open>less(pairs[i].Key, pairs[j].Key)\<close>. The container is returned next to the result:
  no field of it is assigned. The whole result is \<open>None\<close> where the sort would not return.
\<close>

definition by_key :: "('k \<Rightarrow> 'k \<Rightarrow> bool) \<Rightarrow> ('k, 'v) Pair_kv \<Rightarrow> ('k, 'v) Pair_kv \<Rightarrow> bool" where
  "by_key f p q = f (Key p) (Key q)"

definition SortedPairs ::
  "'v \<Rightarrow> ('k, 'v) OrderedMap \<Rightarrow> ('k \<Rightarrow> 'k \<Rightarrow> bool) option
     \<Rightarrow> (('k error + ('k, 'v) Pair_kv list) \<times> ('k, 'v) OrderedMap) option" where
  "SortedPairs z m lessf =
     (let less1 = (case lessf of None \<Rightarrow> less_fn m | Some f \<Rightarrow> Some f)
      in case less1 of
           None \<Rightarrow> Some (Inl ErrComparatorRequired, m)
         | Some f \<Rightarrow>
             (let pairs = map (\<lambda>k. \<lparr>Key = k, Value = map_index z (data m) k\<rparr>) (order m)
              in case SliceStable (by_key f) pairs of
                   None \<Rightarrow> None
                 | Some ps \<Rightarrow> Some (Inr ps, m)))"

section \<open>Sequences of mutating operations\<close>

datatype ('k, 'v, 's) op =
    OpSet 'k 'v
  | OpUpsert 'k 'v "('v \<Rightarrow> 's \<Rightarrow> 'v \<times> 's) option"
  | OpDelete 'k
  | OpClear
  | OpInsertBefore 'k 'k 'v
  | OpInsertAfter 'k 'k 'v

fun apply_op :: "'v \<Rightarrow> ('k, 'v) OrderedMap \<times> 's \<Rightarrow> ('k, 'v, 's) op \<Rightarrow> ('k, 'v) OrderedMap \<times> 's" where
  "apply_op z (m, s) (OpSet k v) = (Set m k v, s)"
| "apply_op z (m, s) (OpUpsert k v fn) = snd (Upsert z m k v fn s)"
| "apply_op z (m, s) (OpDelete k) = (snd (Delete z m k), s)"
| "apply_op z (m, s) OpClear = (Clear m, s)"
| "apply_op z (m, s) (OpInsertBefore t k v) = (snd (InsertBefore m t k v), s)"
| "apply_op z (m, s) (OpInsertAfter t k v) = (snd (InsertAfter m t k v), s)"

definition run_ops ::
  "'v \<Rightarrow> ('k, 'v, 's) op list \<Rightarrow> ('k, 'v) OrderedMap \<times> 's \<Rightarrow> ('k, 'v) OrderedMap \<times> 's" where
  "run_ops z ops ms = foldl (apply_op z) ms ops"

section \<open>Predicates of the specification\<close>

text \<open>I1 and I2: the keys of the order sequence are exactly the keys of the mapping, none twice.\<close>

definition bijection_inv :: "('k, 'v) OrderedMap \<Rightarrow> bool" where
  "bijection_inv m \<longleftrightarrow> set (order m) = dom (data m) \<and> distinct (order m)"

text \<open>
  A strict weak ordering: irreflexive, transitive, and with a transitive incomparability.
\<close>

definition strict_weak_ordering :: "('k \<Rightarrow> 'k \<Rightarrow> bool) \<Rightarrow> bool" where
  "strict_weak_ordering f \<longleftrightarrow>
     (\<forall>a. \<not> f a a) \<and>
     (\<forall>a b c. f a b \<longrightarrow> f b c \<longrightarrow> f a c) \<and>
     (\<forall>a b c. \<not> f a b \<and> \<not> f b a \<longrightarrow> \<not> f b c \<and> \<not> f c b \<longrightarrow> \<not> f a c \<and> \<not> f c a)"

text \<open>Sorted by the comparator: no entry is less than an entry before it.\<close>

definition sorted_by :: "('k \<Rightarrow> 'k \<Rightarrow> bool) \<Rightarrow> ('k, 'v) Pair_kv list \<Rightarrow> bool" where
  "sorted_by f ps = sorted_wrt (\<lambda>p q. \<not> f (Key q) (Key p)) ps"

text \<open>
  Two entries stand in the same relative order in \<open>ys\<close> as in \<open>xs\<close>: erasing every other
  entry leaves the same list.
\<close>

definition same_relative_order :: "'a \<Rightarrow> 'a \<Rightarrow> 'a list \<Rightarrow> 'a list \<Rightarrow> bool" where
  "same_relative_order p q ys xs \<longleftrightarrow>
     filter (\<lambda>x. x = p \<or> x = q) ys = filter (\<lambda>x. x = p \<or> x = q) xs"

text \<open>A comparator of the right type that is no ordering: everything is less than everything.\<close>

definition always_less :: "'k \<Rightarrow> 'k \<Rightarrow> bool" where
  "always_less a b = True"

text \<open>The comparator of scenario C: \<^verbatim>\<open>len(a) < len(b)\<close>.\<close>

definition shorter :: "string \<Rightarrow> string \<Rightarrow> bool" where
  "shorter a b \<longleftrightarrow> length a < length b"

text \<open>
  The comparator registered at construction, in the words of the specification: options
  apply in the order supplied and the last comparator option wins; a nil option and a
  capacity hint register nothing, and without a comparator option there is none.
\<close>

fun comparator_options :: "'k MapOption option list \<Rightarrow> ('k \<Rightarrow> 'k \<Rightarrow> bool) option list" where
  "comparator_options [] = []"
| "comparator_options (Some (WithComparator l) # opts) = l # comparator_options opts"
| "comparator_options (Some (WithCapacity n) # opts) = comparator_options opts"
| "comparator_options (None # opts) = comparator_options opts"

definition registered_comparator :: "'k MapOption option list \<Rightarrow> ('k \<Rightarrow> 'k \<Rightarrow> bool) option" where
  "registered_comparator opts =
     (case rev (comparator_options opts) of [] \<Rightarrow> None | l # _ \<Rightarrow> l)"

text \<open>
  Two comparators on integer keys, \<^verbatim>\<open>a < b\<close> and \<^verbatim>\<open>a > b\<close>, and a container built with
  four options, the last of which registers \<^verbatim>\<open>a < b\<close>, holding the keys 2, 1, 3 in this
  insertion order.
\<close>

definition ascending :: "int \<Rightarrow> int \<Rightarrow> bool" where
  "ascending a b \<longleftrightarrow> a < b"

definition descending :: "int \<Rightarrow> int \<Rightarrow> bool" where
  "descending a b \<longleftrightarrow> a > b"

definition sample_map :: "(int, int) OrderedMap" where
  "sample_map =
     Set (Set (Set (NewOrderedMap [Some (WithComparator (Some descending)), None,
                                   Some (WithCapacity 8), Some (WithComparator (Some ascending))])
               2 20) 1 10) 3 30"

section \<open>Reference functions for the proofs\<close>

text \<open>
  Functions on lists that the loops above are proved equal to. \<open>insert_rev\<close> is one pass of
  the inner loop of the insertion sort on the prefix read from right to left: the new
  element moves left past every element it is less than and stops at the first one it is
  not less than. \<open>ssort\<close> is the insertion sort built from it, \<open>smerge\<close> the merge that
  takes from the right run only a strictly smaller element, \<open>insert_left\<close> the insertion
  from the left, and \<open>chunk_sort\<close> the list whose blocks of \<open>bs\<close> elements are each
  sorted.
\<close>

fun insert_rev :: "('a \<Rightarrow> 'a \<Rightarrow> bool) \<Rightarrow> 'a \<Rightarrow> 'a list \<Rightarrow> 'a list" where
  "insert_rev lt x [] = [x]"
| "insert_rev lt x (y # ys) = (if lt x y then y # insert_rev lt x ys else x # y # ys)"

definition isort_rev :: "('a \<Rightarrow> 'a \<Rightarrow> bool) \<Rightarrow> 'a list \<Rightarrow> 'a list \<Rightarrow> 'a list" where
  "isort_rev lt rs xs = foldl (\<lambda>acc x. insert_rev lt x acc) rs xs"

definition ssort :: "('a \<Rightarrow> 'a \<Rightarrow> bool) \<Rightarrow> 'a list \<Rightarrow> 'a list" where
  "ssort lt xs = rev (isort_rev lt [] xs)"

fun smerge :: "('a \<Rightarrow> 'a \<Rightarrow> bool) \<Rightarrow> 'a list \<Rightarrow> 'a list \<Rightarrow> 'a list" where
  "smerge lt [] ys = ys"
| "smerge lt xs [] = xs"
| "smerge lt (x # xs) (y # ys) =
     (if lt y x then y # smerge lt (x # xs) ys else x # smerge lt xs (y # ys))"

fun insert_left :: "('a \<Rightarrow> 'a \<Rightarrow> bool) \<Rightarrow> 'a \<Rightarrow> 'a list \<Rightarrow> 'a list" where
  "insert_left lt x [] = [x]"
| "insert_left lt x (y # ys) = (if lt x y then x # y # ys else y # insert_left lt x ys)"

function chunk_sort :: "('a \<Rightarrow> 'a \<Rightarrow> bool) \<Rightarrow> nat \<Rightarrow> 'a list \<Rightarrow> 'a list" where
  "chunk_sort lt bs xs =
     (if 0 < bs \<and> bs \<le> length xs
      then ssort lt (take bs xs) @ chunk_sort lt bs (drop bs xs)
      else ssort lt xs)"
  by pat_completeness auto
termination
  by (relation "measure (\<lambda>(lt, bs, xs). length xs)") auto

declare chunk_sort.simps [simp del]

section \<open>Lemmas on the operations\<close>

lemma indexOf_loop_absent: "key \<notin> set xs \<Longrightarrow> indexOf_loop i xs key = - 1"
  by (induction xs arbitrary: i) auto

lemma indexOf_loop_first:
  "key \<notin> set pre \<Longrightarrow> indexOf_loop i (pre @ key # post) key = int (i + length pre)"
  by (induction pre arbitrary: i) auto

lemma copy_within_shift:
  "mid \<noteq> [] \<Longrightarrow>
     (copy_within (pre @ mid) (length pre + 1) (length pre)) [length pre := key]
       = pre @ key # butlast mid"
proof -
  assume "mid \<noteq> []"
  then obtain x rest where mid: "mid = x # rest" by (cases mid) auto
  have "min (length rest) (Suc (length rest)) = length rest" by simp
  then have "copy_within (pre @ mid) (length pre + 1) (length pre) = pre @ x # take (length rest) (x # rest)"
    by (simp add: copy_within_def mid)
  then show ?thesis
    by (simp add: mid butlast_conv_take list_update_append)
qed

lemma insert_at_order:
  assumes "i \<le> length ord"
  shows "(copy_within (ord @ [key]) (i + 1) i) [i := key] = take i ord @ key # drop i ord"
proof -
  have len: "length (take i ord) = i" using assms by simp
  have "(copy_within (take i ord @ (drop i ord @ [key])) (length (take i ord) + 1) (length (take i ord)))
          [length (take i ord) := key] = take i ord @ key # butlast (drop i ord @ [key])"
    by (rule copy_within_shift) simp
  then have "(copy_within (take i ord @ (drop i ord @ [key])) (i + 1) i) [i := key]
               = take i ord @ key # drop i ord"
    by (simp only: len butlast_snoc)
  moreover have "take i ord @ (drop i ord @ [key]) = ord @ [key]" by simp
  ultimately show ?thesis by (simp only:)
qed

lemma removeFromOrder_loop_remove1:
  "removeFromOrder_loop (d @ ks) (length d) ks key = d @ remove1 key ks"
proof (induction ks arbitrary: d)
  case Nil
  then show ?case by simp
next
  case (Cons k ks)
  show ?case
  proof (cases "k = key")
    case True
    then show ?thesis by simp
  next
    case False
    from Cons.IH [of "d @ [k]"] False show ?thesis by simp
  qed
qed

lemma removeFromOrder_eq: "removeFromOrder m key = m\<lparr>order := remove1 key (order m)\<rparr>"
  using removeFromOrder_loop_remove1 [of "[]" "order m" key] by (simp add: removeFromOrder_def)

lemma remove1_first: "key \<notin> set pre \<Longrightarrow> remove1 key (pre @ key # post) = pre @ post"
  by (induction pre) auto

lemma InsertBefore_at:
  assumes "order m = pre @ target # post" "target \<notin> set pre" "data m key = None"
  shows "InsertBefore m target key v =
           (None, m\<lparr>data := (data m)(key \<mapsto> v), order := pre @ key # target # post\<rparr>)"
proof -
  have idx: "indexOf m target = int (length pre)"
    using assms(1,2) indexOf_loop_first [of target pre 0 post] by (simp add: indexOf_def)
  have "length pre \<le> length (order m)" using assms(1) by simp
  from insert_at_order [OF this, of key]
  have "(copy_within (order m @ [key]) (length pre + 1) (length pre)) [length pre := key]
          = pre @ key # target # post"
    using assms(1) by simp
  then show ?thesis
    using assms(3) idx by (simp add: InsertBefore_def Let_def)
qed

lemma InsertAfter_at:
  assumes "order m = pre @ target # post" "target \<notin> set pre" "data m key = None"
  shows "InsertAfter m target key v =
           (None, m\<lparr>data := (data m)(key \<mapsto> v), order := pre @ target # key # post\<rparr>)"
proof -
  have idx: "indexOf m target = int (length pre)"
    using assms(1,2) indexOf_loop_first [of target pre 0 post] by (simp add: indexOf_def)
  have "length pre + 1 \<le> length (order m)" using assms(1) by simp
  from insert_at_order [OF this, of key]
  have "(copy_within (order m @ [key]) (length pre + 1 + 1) (length pre + 1)) [length pre + 1 := key]
          = pre @ target # key # post"
    using assms(1) by simp
  then show ?thesis
    using assms(3) idx by (simp add: InsertAfter_def Let_def)
qed

lemma inv_New: "bijection_inv (NewOrderedMap opts)"
  by (simp add: bijection_inv_def NewOrderedMap_def Let_def)

lemma inv_Set: "bijection_inv m \<Longrightarrow> bijection_inv (Set m k v)"
  by (auto simp: bijection_inv_def Set_def split: option.splits)

lemma inv_Upsert: "bijection_inv m \<Longrightarrow> bijection_inv (fst (snd (Upsert z m k v fn s)))"
  by (auto simp: bijection_inv_def Upsert_def split: option.splits prod.splits)

lemma inv_Delete: "bijection_inv m \<Longrightarrow> bijection_inv (snd (Delete z m k))"
  by (auto simp: bijection_inv_def Delete_def removeFromOrder_eq split: option.splits)

lemma inv_Clear: "bijection_inv (Clear m)"
  by (simp add: bijection_inv_def Clear_def)

lemma inv_InsertBefore: "bijection_inv m \<Longrightarrow> bijection_inv (snd (InsertBefore m t k v))"
proof -
  assume inv: "bijection_inv m"
  show ?thesis
  proof (cases "data m k = None \<and> t \<in> set (order m)")
    case False
    then have "snd (InsertBefore m t k v) = m"
      by (auto simp: InsertBefore_def indexOf_def indexOf_loop_absent split: option.splits)
    then show ?thesis using inv by simp
  next
    case True
    then have notin: "k \<notin> set (order m)" using inv by (auto simp: bijection_inv_def)
    from True obtain pre post where ord: "order m = pre @ t # post" and pre: "t \<notin> set pre"
      using split_list_first [of t "order m"] by auto
    have "data m k = None" using True by simp
    from InsertBefore_at [OF ord pre this, of v] inv notin ord show ?thesis
      by (auto simp: bijection_inv_def)
  qed
qed

lemma inv_InsertAfter: "bijection_inv m \<Longrightarrow> bijection_inv (snd (InsertAfter m t k v))"
proof -
  assume inv: "bijection_inv m"
  show ?thesis
  proof (cases "data m k = None \<and> t \<in> set (order m)")
    case False
    then have "snd (InsertAfter m t k v) = m"
      by (auto simp: InsertAfter_def indexOf_def indexOf_loop_absent split: option.splits)
    then show ?thesis using inv by simp
  next
    case True
    then have notin: "k \<notin> set (order m)" using inv by (auto simp: bijection_inv_def)
    from True obtain pre post where ord: "order m = pre @ t # post" and pre: "t \<notin> set pre"
      using split_list_first [of t "order m"] by auto
    have "data m k = None" using True by simp
    from InsertAfter_at [OF ord pre this, of v] inv notin ord show ?thesis
      by (auto simp: bijection_inv_def)
  qed
qed

lemma inv_apply_op: "bijection_inv (fst ms) \<Longrightarrow> bijection_inv (fst (apply_op z ms op))"
proof (cases ms)
  case (Pair m s)
  assume "bijection_inv (fst ms)"
  then have inv: "bijection_inv m" using Pair by simp
  show ?thesis
  proof (cases op)
    case (OpSet k v)
    then show ?thesis using Pair inv by (simp add: inv_Set)
  next
    case (OpUpsert k v fn)
    then show ?thesis using Pair inv_Upsert [OF inv, of z k v fn s] by simp
  next
    case (OpDelete k)
    then show ?thesis using Pair inv by (simp add: inv_Delete)
  next
    case OpClear
    then show ?thesis using Pair by (simp add: inv_Clear)
  next
    case (OpInsertBefore t k v)
    then show ?thesis using Pair inv by (simp add: inv_InsertBefore)
  next
    case (OpInsertAfter t k v)
    then show ?thesis using Pair inv by (simp add: inv_InsertAfter)
  qed
qed

lemma inv_run_ops: "bijection_inv (fst ms) \<Longrightarrow> bijection_inv (fst (run_ops z ops ms))"
  unfolding run_ops_def
  by (induction ops arbitrary: ms) (simp_all add: inv_apply_op)

lemma less_fn_apply_op: "less_fn (fst (apply_op z ms op)) = less_fn (fst ms)"
  by (cases ms; cases op)
     (simp_all add: Set_def Upsert_def Delete_def removeFromOrder_eq Clear_def InsertBefore_def
        InsertAfter_def Let_def split: option.splits prod.splits)

lemma less_fn_run_ops: "less_fn (fst (run_ops z ops ms)) = less_fn (fst ms)"
  unfolding run_ops_def
  by (induction ops arbitrary: ms) (simp_all add: less_fn_apply_op)

lemma cfg_less_apply_options:
  "cfg_less (apply_options opts cfg)
     = (case rev (comparator_options opts) of [] \<Rightarrow> cfg_less cfg | l # _ \<Rightarrow> l)"
proof (induction opts arbitrary: cfg)
  case Nil
  then show ?case by simp
next
  case (Cons o1 opts)
  show ?case
  proof (cases o1)
    case None
    then show ?thesis using Cons.IH [of cfg] by simp
  next
    case (Some opt)
    show ?thesis
    proof (cases opt)
      case (WithCapacity n)
      then show ?thesis using Some Cons.IH [of "apply_option opt cfg"]
        by (simp split: list.splits)
    next
      case (WithComparator l)
      then show ?thesis using Some Cons.IH [of "apply_option opt cfg"]
        by (cases "rev (comparator_options opts)") simp_all
    qed
  qed
qed

lemma less_fn_New: "less_fn (NewOrderedMap opts) = registered_comparator opts"
  by (simp add: NewOrderedMap_def Let_def registered_comparator_def cfg_less_apply_options
      split: list.splits)

section \<open>Lemmas on the stable sort\<close>

subsection \<open>The insertion sort sorts a segment\<close>

lemma inner_insert:
  "length P = a \<Longrightarrow>
   insertionSort_inner lt a (a + length rs) (P @ rev rs @ x # R) = P @ rev (insert_rev lt x rs) @ R"
proof (induction rs arbitrary: R)
  case Nil
  then show ?case by (simp add: insertionSort_inner.simps)
next
  case (Cons y ys)
  have nj: "(P @ rev (y # ys) @ x # R) ! (a + length (y # ys)) = x"
    using Cons.prems by (simp add: nth_append)
  have nj1: "(P @ rev (y # ys) @ x # R) ! (a + length (y # ys) - 1) = y"
    using Cons.prems by (simp add: nth_append)
  show ?case
  proof (cases "lt x y")
    case False
    then show ?thesis
      using nj nj1 by (subst insertionSort_inner.simps) simp
  next
    case True
    have sw: "Swap (a + length (y # ys)) (a + length (y # ys) - 1) (P @ rev (y # ys) @ x # R)
                = P @ rev ys @ x # y # R"
      unfolding Swap_def nj nj1 using Cons.prems
      by (simp add: list_update_append)
    have "insertionSort_inner lt a (a + length (y # ys)) (P @ rev (y # ys) @ x # R)
            = insertionSort_inner lt a (a + length (y # ys) - 1) (P @ rev ys @ x # y # R)"
      using True nj nj1 sw by (subst insertionSort_inner.simps) simp
    also have "\<dots> = P @ rev (insert_rev lt x ys) @ y # R"
      using Cons.IH [OF Cons.prems, of "y # R"] by simp
    finally show ?thesis using True by simp
  qed
qed

lemma outer_isort:
  "length P = a \<Longrightarrow> i = a + length rs \<Longrightarrow> b = i + length T \<Longrightarrow>
   insertionSort_outer lt a b i (P @ rev rs @ T @ R) = P @ rev (isort_rev lt rs T) @ R"
proof (induction T arbitrary: rs i)
  case Nil
  then show ?case by (simp add: insertionSort_outer.simps isort_rev_def)
next
  case (Cons x T)
  have "insertionSort_outer lt a b i (P @ rev rs @ (x # T) @ R)
          = insertionSort_outer lt a b (i + 1) (insertionSort_inner lt a i (P @ rev rs @ x # (T @ R)))"
    using Cons.prems by (subst insertionSort_outer.simps) simp
  also have "insertionSort_inner lt a i (P @ rev rs @ x # (T @ R)) = P @ rev (insert_rev lt x rs) @ T @ R"
    using inner_insert [of P a lt rs x "T @ R"] Cons.prems by simp
  also have "insertionSort_outer lt a b (i + 1) (P @ rev (insert_rev lt x rs) @ T @ R)
               = P @ rev (isort_rev lt (insert_rev lt x rs) T) @ R"
  proof (rule Cons.IH)
    show "length P = a" by (rule Cons.prems)
    have "length (insert_rev lt x rs) = Suc (length rs)" by (induction rs) auto
    then show "i + 1 = a + length (insert_rev lt x rs)" using Cons.prems by simp
    show "b = i + 1 + length T" using Cons.prems by simp
  qed
  finally show ?case by (simp add: isort_rev_def)
qed

lemma insertionSort_func_segment:
  "insertionSort_func lt (P @ U @ R) (length P) (length P + length U) = P @ ssort lt U @ R"
proof (cases U)
  case Nil
  then show ?thesis by (simp add: insertionSort_func_def insertionSort_outer.simps isort_rev_def ssort_def)
next
  case (Cons u T)
  have "insertionSort_outer lt (length P) (length P + 1 + length T) (length P + 1) (P @ rev [u] @ T @ R)
          = P @ rev (isort_rev lt [u] T) @ R"
    by (rule outer_isort) simp_all
  then show ?thesis using Cons by (simp add: insertionSort_func_def isort_rev_def ssort_def)
qed

lemma mset_insert_rev: "mset (insert_rev lt x rs) = add_mset x (mset rs)"
  by (induction rs) auto

lemma mset_isort_rev: "mset (isort_rev lt rs xs) = mset rs + mset xs"
  unfolding isort_rev_def
  by (induction xs arbitrary: rs) (simp_all add: mset_insert_rev)

lemma set_insert_rev: "set (insert_rev lt x rs) = insert x (set rs)"
  by (induction rs) auto

lemma sorted_insert_rev:
  assumes asym: "\<And>a b. lt a b \<Longrightarrow> \<not> lt b a"
    and negtrans: "\<And>a b c. \<not> lt a b \<Longrightarrow> \<not> lt b c \<Longrightarrow> \<not> lt a c"
  shows "sorted_wrt (\<lambda>a b. \<not> lt a b) rs \<Longrightarrow> sorted_wrt (\<lambda>a b. \<not> lt a b) (insert_rev lt x rs)"
proof (induction rs)
  case Nil
  then show ?case by simp
next
  case (Cons y ys)
  show ?case
  proof (cases "lt x y")
    case True
    then have "\<not> lt y x" by (rule asym)
    with True Cons show ?thesis by (auto simp: set_insert_rev)
  next
    case False
    have "\<not> lt x b" if "b \<in> set ys" for b
      using Cons.prems that False negtrans [of x y b] by auto
    with False Cons.prems show ?thesis by auto
  qed
qed

lemma sorted_isort_rev:
  assumes asym: "\<And>a b. lt a b \<Longrightarrow> \<not> lt b a"
    and negtrans: "\<And>a b c. \<not> lt a b \<Longrightarrow> \<not> lt b c \<Longrightarrow> \<not> lt a c"
  shows "sorted_wrt (\<lambda>a b. \<not> lt a b) rs \<Longrightarrow> sorted_wrt (\<lambda>a b. \<not> lt a b) (isort_rev lt rs xs)"
  unfolding isort_rev_def
proof (induction xs arbitrary: rs)
  case Nil
  then show ?case by simp
next
  case (Cons x xs)
  from sorted_insert_rev [of lt rs x, OF asym negtrans Cons.prems]
  have "sorted_wrt (\<lambda>a b. \<not> lt a b) (insert_rev lt x rs)" by simp
  from Cons.IH [OF this] show ?case by simp
qed


subsection \<open>Strict weak orderings\<close>

lemma swo_irrefl: "strict_weak_ordering lt \<Longrightarrow> \<not> lt a a"
  by (simp add: strict_weak_ordering_def)

lemma swo_trans: "strict_weak_ordering lt \<Longrightarrow> lt a b \<Longrightarrow> lt b c \<Longrightarrow> lt a c"
  unfolding strict_weak_ordering_def by blast

lemma swo_asym: "strict_weak_ordering lt \<Longrightarrow> lt a b \<Longrightarrow> \<not> lt b a"
  unfolding strict_weak_ordering_def by blast

lemma swo_negtrans: "strict_weak_ordering lt \<Longrightarrow> \<not> lt a b \<Longrightarrow> \<not> lt b c \<Longrightarrow> \<not> lt a c"
  unfolding strict_weak_ordering_def by meson

lemma swo_lt_le: "strict_weak_ordering lt \<Longrightarrow> lt a b \<Longrightarrow> \<not> lt c b \<Longrightarrow> lt a c"
  using swo_negtrans [of lt a c b] by blast

lemma swo_le_lt: "strict_weak_ordering lt \<Longrightarrow> \<not> lt b a \<Longrightarrow> lt b c \<Longrightarrow> lt a c"
  using swo_negtrans [of lt b a c] by blast

lemma length_insert_rev: "length (insert_rev lt x rs) = Suc (length rs)"
  by (induction rs) auto

lemma length_ssort: "length (ssort lt xs) = length xs"
  using mset_isort_rev [of lt "[]" xs] by (metis ssort_def length_rev size_mset add_0 mset.simps(1))

lemma sorted_ssort: "strict_weak_ordering lt \<Longrightarrow> sorted_wrt (\<lambda>a b. \<not> lt b a) (ssort lt xs)"
proof -
  assume s: "strict_weak_ordering lt"
  have "sorted_wrt (\<lambda>a b. \<not> lt a b) []" by simp
  then have "sorted_wrt (\<lambda>a b. \<not> lt a b) (isort_rev lt [] xs)"
    by (rule sorted_isort_rev [rotated 2]) (use s swo_asym swo_negtrans in fast)+
  then show ?thesis by (simp add: ssort_def sorted_wrt_rev)
qed

subsection \<open>The binary search finds the partition point\<close>

lemma search_loop_partition:
  "i \<le> j \<Longrightarrow> (\<And>h h'. i \<le> h \<Longrightarrow> h \<le> h' \<Longrightarrow> h' < j \<Longrightarrow> P h' \<Longrightarrow> P h) \<Longrightarrow>
     i \<le> search_loop P i j \<and> search_loop P i j \<le> j \<and>
     (\<forall>h. i \<le> h \<and> h < search_loop P i j \<longrightarrow> P h) \<and>
     (\<forall>h. search_loop P i j \<le> h \<and> h < j \<longrightarrow> \<not> P h)"
proof (induction P i j rule: search_loop.induct)
  case (1 P i j)
  show ?case
  proof (cases "i < j")
    case False
    then have "search_loop P i j = i" by (subst search_loop.simps) simp
    then show ?thesis using False "1.prems"(1) by auto
  next
    case True
    define h where "h = (i + j) div 2"
    have hb: "i \<le> h" "h < j" using True by (simp_all add: h_def)
    show ?thesis
    proof (cases "P h")
      case Ph: True
      have eq: "search_loop P i j = search_loop P (h + 1) j"
        using True Ph by (subst search_loop.simps) (simp add: h_def Let_def)
      have below: "P c" if "i \<le> c" "c \<le> h" for c
        using "1.prems"(2) [of c h] that hb Ph by simp
      have IH: "h + 1 \<le> search_loop P (h + 1) j \<and> search_loop P (h + 1) j \<le> j \<and>
         (\<forall>c. h + 1 \<le> c \<and> c < search_loop P (h + 1) j \<longrightarrow> P c) \<and>
         (\<forall>c. search_loop P (h + 1) j \<le> c \<and> c < j \<longrightarrow> \<not> P c)"
      proof (rule "1.IH"(1) [OF True h_def Ph])
        show "h + 1 \<le> j" using hb by simp
        show "P c" if "h + 1 \<le> c" "c \<le> c'" "c' < j" "P c'" for c c'
          using "1.prems"(2) [of c c'] that hb by simp
      qed
      have "P c" if "i \<le> c" "c < search_loop P (h + 1) j" for c
      proof (cases "c \<le> h")
        case True
        then show ?thesis using below that by simp
      next
        case False
        then have "h + 1 \<le> c" by simp
        then show ?thesis using IH that by blast
      qed
      moreover have "i \<le> search_loop P (h + 1) j" using IH hb by linarith
      ultimately show ?thesis unfolding eq using IH by blast
    next
      case nPh: False
      have eq: "search_loop P i j = search_loop P i h"
        using True nPh by (subst search_loop.simps) (simp add: h_def Let_def)
      have above: "\<not> P c" if "h \<le> c" "c < j" for c
        using "1.prems"(2) [of h c] that hb nPh by auto
      have IH: "i \<le> search_loop P i h \<and> search_loop P i h \<le> h \<and>
         (\<forall>c. i \<le> c \<and> c < search_loop P i h \<longrightarrow> P c) \<and>
         (\<forall>c. search_loop P i h \<le> c \<and> c < h \<longrightarrow> \<not> P c)"
      proof (rule "1.IH"(2) [OF True h_def nPh])
        show "i \<le> h" using hb by simp
        show "P c" if "i \<le> c" "c \<le> c'" "c' < h" "P c'" for c c'
          using "1.prems"(2) [of c c'] that hb by simp
      qed
      have "\<not> P c" if "search_loop P i h \<le> c" "c < j" for c
      proof (cases "c < h")
        case True
        then show ?thesis using IH that by blast
      next
        case False
        then have "h \<le> c" by simp
        then show ?thesis using above that by simp
      qed
      moreover have "search_loop P i h \<le> j" using IH hb by linarith
      ultimately show ?thesis unfolding eq using IH by blast
    qed
  qed
qed

subsection \<open>Swaps, block exchange and rotation on a decomposed slice\<close>

lemma Swap_decomp:
  assumes "length P = i" "j = i + 1 + length M"
  shows "Swap i j (P @ u # M @ v # R) = P @ v # M @ u # R"
proof -
  have ni: "(P @ u # M @ v # R) ! i = u" using assms by (simp add: nth_append)
  have "(P @ (u # M) @ v # R) ! (length (P @ (u # M))) = v" by (simp only: append_assoc [symmetric] nth_append_length)
  then have nj: "(P @ u # M @ v # R) ! j = v" using assms by simp
  have "(P @ u # M @ v # R)[i := v] = P @ v # M @ v # R"
    using assms by (simp add: list_update_append)
  moreover have "((P @ v # M) @ v # R)[length (P @ v # M) := u] = (P @ v # M) @ u # R"
    by (rule list_update_length)
  then have "(P @ v # M @ v # R)[j := u] = P @ v # M @ u # R" using assms by simp
  ultimately show ?thesis by (simp add: Swap_def ni nj)
qed

lemma Swap_commute: "Swap j i xs = Swap i j xs"
  by (cases "i = j") (simp_all add: Swap_def list_update_swap)

lemma swapRange_loop_blocks:
  "length X = i \<Longrightarrow> length Y = i \<Longrightarrow> length U = length V \<Longrightarrow> n = i + length U \<Longrightarrow>
   a = length P \<Longrightarrow> b = a + n + length M \<Longrightarrow>
   swapRange_loop (P @ X @ U @ M @ Y @ V @ R) a b n i = P @ X @ V @ M @ Y @ U @ R"
proof (induction U arbitrary: V X Y i)
  case Nil
  then show ?case by (subst swapRange_loop.simps) simp
next
  case (Cons u U)
  then obtain v V' where V: "V = v # V'" by (cases V) auto
  have sw: "Swap (a + i) (b + i) (P @ X @ (u # U) @ M @ Y @ (v # V') @ R)
              = P @ X @ (v # U) @ M @ Y @ (u # V') @ R"
    using Swap_decomp [of "P @ X" "a + i" "b + i" "U @ M @ Y" u v "V' @ R"] Cons.prems V
    by simp
  have "swapRange_loop (P @ X @ (u # U) @ M @ Y @ (v # V') @ R) a b n i
          = swapRange_loop (P @ (X @ [v]) @ U @ M @ (Y @ [u]) @ V' @ R) a b n (i + 1)"
    using Cons.prems sw unfolding V by (subst swapRange_loop.simps) simp
  also have "\<dots> = P @ (X @ [v]) @ V' @ M @ (Y @ [u]) @ U @ R"
    by (rule Cons.IH) (use Cons.prems V in simp_all)
  finally show ?case using V by simp
qed

lemma swapRange_func_blocks:
  "length U = length V \<Longrightarrow> n = length U \<Longrightarrow> a = length P \<Longrightarrow> b = a + n + length M \<Longrightarrow>
   swapRange_func (P @ U @ M @ V @ R) a b n = P @ V @ M @ U @ R"
  using swapRange_loop_blocks [of "[]" 0 "[]" U V n a P b M R] by (simp add: swapRange_func_def)

lemma rotate_loop_blocks:
  "length U = i \<Longrightarrow> length V = j \<Longrightarrow> 0 < i \<Longrightarrow> 0 < j \<Longrightarrow> m = length P + i \<Longrightarrow>
   \<exists>xs' i'. rotate_loop (P @ U @ V @ R) m i j = Some (xs', i') \<and>
     swapRange_func xs' (m - i') m i' = P @ V @ U @ R"
proof (induction "i + j" arbitrary: i j P U V R rule: less_induct)
  case less
  consider "i = j" | "i > j" | "i < j" by linarith
  then show ?case
  proof cases
    case 1
    have "rotate_loop (P @ U @ V @ R) m i j = Some (P @ U @ V @ R, i)"
      using 1 by (subst rotate_loop.simps) simp
    moreover have "swapRange_func (P @ U @ [] @ V @ R) (m - i) m i = P @ V @ [] @ U @ R"
      by (rule swapRange_func_blocks) (use less.prems 1 in simp_all)
    ultimately show ?thesis by simp
  next
    case 2
    define U1 where "U1 = take j U"
    define U2 where "U2 = drop j U"
    have U: "U = U1 @ U2" and l1: "length U1 = j" and l2: "length U2 = i - j"
      using 2 less.prems by (simp_all add: U1_def U2_def)
    have sr: "swapRange_func (P @ U1 @ U2 @ V @ R) (m - i) m j = P @ V @ U2 @ U1 @ R"
      by (rule swapRange_func_blocks) (use less.prems l1 l2 2 in simp_all)
    have step: "rotate_loop (P @ U @ V @ R) m i j = rotate_loop ((P @ V) @ U2 @ U1 @ R) m (i - j) j"
      using 2 sr by (subst rotate_loop.simps) (simp add: U)
    have "\<exists>xs' i'. rotate_loop ((P @ V) @ U2 @ U1 @ R) m (i - j) j = Some (xs', i') \<and>
       swapRange_func xs' (m - i') m i' = (P @ V) @ U1 @ U2 @ R"
      by (rule less.hyps) (use less.prems l1 l2 2 in simp_all)
    then show ?thesis unfolding step by (simp add: U)
  next
    case 3
    define V1 where "V1 = take (j - i) V"
    define V2 where "V2 = drop (j - i) V"
    have V: "V = V1 @ V2" and l1: "length V1 = j - i" and l2: "length V2 = i"
      using 3 less.prems by (simp_all add: V1_def V2_def)
    have sr: "swapRange_func (P @ U @ V1 @ V2 @ R) (m - i) (m + j - i) i = P @ V2 @ V1 @ U @ R"
      by (rule swapRange_func_blocks) (use less.prems l1 l2 3 in simp_all)
    have step: "rotate_loop (P @ U @ V @ R) m i j = rotate_loop (P @ V2 @ V1 @ (U @ R)) m i (j - i)"
      using 3 sr by (subst rotate_loop.simps) (simp add: V)
    have "\<exists>xs' i'. rotate_loop (P @ V2 @ V1 @ (U @ R)) m i (j - i) = Some (xs', i') \<and>
       swapRange_func xs' (m - i') m i' = P @ V1 @ V2 @ (U @ R)"
      by (rule less.hyps) (use less.prems l1 l2 3 in simp_all)
    then show ?thesis unfolding step by (simp add: V)
  qed
qed

lemma rotate_func_blocks:
  assumes "a = length P" "m = a + length U" "b = m + length V" "U \<noteq> []" "V \<noteq> []"
  shows "rotate_func (P @ U @ V @ R) a m b = Some (P @ V @ U @ R)"
proof -
  have "\<exists>xs' i'. rotate_loop (P @ U @ V @ R) m (length U) (length V) = Some (xs', i') \<and>
     swapRange_func xs' (m - i') m i' = P @ V @ U @ R"
    by (rule rotate_loop_blocks) (use assms in simp_all)
  then show ?thesis using assms by (auto simp: rotate_func_def)
qed

lemma shift_up_blocks:
  "k = length P \<Longrightarrow> e = k + length B \<Longrightarrow> shift_up (P @ x # B @ R) k e = P @ B @ x # R"
proof (induction B arbitrary: P k)
  case Nil
  then show ?case by (subst shift_up.simps) simp
next
  case (Cons y B)
  have sw: "Swap k (k + 1) (P @ x # (y # B) @ R) = P @ y # x # B @ R"
    using Swap_decomp [of P k "k + 1" "[]" x y "B @ R"] Cons.prems by simp
  have "shift_up (P @ x # (y # B) @ R) k e = shift_up ((P @ [y]) @ x # B @ R) (k + 1) e"
    using Cons.prems sw by (subst shift_up.simps) simp
  also have "\<dots> = (P @ [y]) @ B @ x # R"
    by (rule Cons.IH) (use Cons.prems in simp_all)
  finally show ?case by simp
qed

lemma shift_down_blocks:
  "i = length P \<Longrightarrow> k = i + length A \<Longrightarrow> shift_down (P @ A @ y # R) k i = P @ y # A @ R"
proof (induction A arbitrary: R k rule: rev_induct)
  case Nil
  then show ?case by (subst shift_down.simps) simp
next
  case (snoc x A)
  have "Swap (k - 1) k (P @ A @ x # [] @ y # R) = P @ A @ y # [] @ x # R"
    using Swap_decomp [of "P @ A" "k - 1" k "[]" x y R] snoc.prems by simp
  then have sw: "Swap k (k - 1) (P @ (A @ [x]) @ y # R) = P @ A @ y # x # R"
    by (simp add: Swap_commute)
  have "shift_down (P @ (A @ [x]) @ y # R) k i = shift_down (P @ A @ y # x # R) (k - 1) i"
    using snoc.prems sw by (subst shift_down.simps) simp
  also have "\<dots> = P @ y # A @ x # R"
    by (rule snoc.IH) (use snoc.prems in simp_all)
  finally show ?case by simp
qed

subsection \<open>The merge of two sorted runs, on lists\<close>

lemma smerge_Nil2 [simp]: "smerge lt xs [] = xs"
  by (cases xs) simp_all

lemma smerge_all_ge: "(\<And>y. y \<in> set B \<Longrightarrow> \<not> lt y x) \<Longrightarrow> smerge lt (x # A) B = x # smerge lt A B"
  by (cases B) simp_all

lemma smerge_all_lt: "(\<And>x. x \<in> set A \<Longrightarrow> lt y x) \<Longrightarrow> smerge lt A (y # B) = y # smerge lt A B"
  by (cases A) simp_all

lemma smerge_split:
  "(\<And>x y. x \<in> set A2 \<Longrightarrow> y \<in> set B1 \<Longrightarrow> lt y x) \<Longrightarrow>
   (\<And>x y. x \<in> set A1 \<Longrightarrow> y \<in> set B2 \<Longrightarrow> \<not> lt y x) \<Longrightarrow>
   smerge lt (A1 @ A2) (B1 @ B2) = smerge lt A1 B1 @ smerge lt A2 B2"
proof (induction lt A1 B1 rule: smerge.induct)
  case (1 lt B1)
  then show ?case
  proof (induction B1)
    case Nil
    then show ?case by simp
  next
    case (Cons b B1)
    have "smerge lt A2 (b # (B1 @ B2)) = b # smerge lt A2 (B1 @ B2)"
      by (rule smerge_all_lt) (use Cons.prems in simp)
    moreover have "smerge lt ([] @ A2) (B1 @ B2) = smerge lt [] B1 @ smerge lt A2 B2"
      by (rule Cons.IH) (use Cons.prems in simp_all)
    ultimately show ?case by simp
  qed
next
  case (2 lt a A1)
  then show ?case
  proof (induction A1 arbitrary: a)
    case Nil
    have "smerge lt (a # A2) B2 = a # smerge lt A2 B2"
      by (rule smerge_all_ge) (use Nil.prems in simp)
    then show ?case by simp
  next
    case (Cons a' A1)
    have "smerge lt (a # ((a' # A1) @ A2)) B2 = a # smerge lt ((a' # A1) @ A2) B2"
      by (rule smerge_all_ge) (use Cons.prems in simp)
    moreover have "smerge lt ((a' # A1) @ A2) ([] @ B2) = smerge lt (a' # A1) [] @ smerge lt A2 B2"
      by (rule Cons.IH) (use Cons.prems in simp_all)
    ultimately show ?case by simp
  qed
next
  case (3 lt x xs y ys)
  show ?case
  proof (cases "lt y x")
    case True
    have "smerge lt ((x # xs) @ A2) (ys @ B2) = smerge lt (x # xs) ys @ smerge lt A2 B2"
      by (rule "3.IH"(1) [OF True]) (use "3.prems" in simp_all)
    then show ?thesis using True by simp
  next
    case False
    have "smerge lt (xs @ A2) ((y # ys) @ B2) = smerge lt xs (y # ys) @ smerge lt A2 B2"
      by (rule "3.IH"(2) [OF False]) (use "3.prems" in simp_all)
    then show ?thesis using False by simp
  qed
qed

lemma smerge_single_left:
  assumes "\<And>y. y \<in> set B1 \<Longrightarrow> lt y x" "\<And>y. y \<in> set B2 \<Longrightarrow> \<not> lt y x"
  shows "smerge lt [x] (B1 @ B2) = B1 @ x # B2"
proof -
  have "smerge lt ([] @ [x]) (B1 @ B2) = smerge lt [] B1 @ smerge lt [x] B2"
    by (rule smerge_split) (use assms in simp_all)
  moreover have "smerge lt (x # []) B2 = x # smerge lt [] B2"
    by (rule smerge_all_ge) (use assms in simp)
  ultimately show ?thesis by simp
qed

lemma smerge_single_right:
  assumes "\<And>e. e \<in> set A1 \<Longrightarrow> \<not> lt y e" "\<And>e. e \<in> set A2 \<Longrightarrow> lt y e"
  shows "smerge lt (A1 @ A2) [y] = A1 @ y # A2"
proof -
  have "smerge lt (A1 @ A2) ([] @ [y]) = smerge lt A1 [] @ smerge lt A2 [y]"
    by (rule smerge_split) (use assms in simp_all)
  moreover have "smerge lt A2 (y # []) = y # smerge lt A2 []"
    by (rule smerge_all_lt) (use assms in simp)
  ultimately show ?thesis by simp
qed

lemma insert_left_snoc_lt: "lt x y \<Longrightarrow> insert_left lt x (S @ [y]) = insert_left lt x S @ [y]"
  by (induction S) auto

lemma insert_left_all_ge: "(\<And>s. s \<in> set S \<Longrightarrow> \<not> lt x s) \<Longrightarrow> insert_left lt x S = S @ [x]"
  by (induction S) auto

lemma insert_rev_left:
  assumes s: "strict_weak_ordering lt"
  shows "sorted_wrt (\<lambda>a b. \<not> lt b a) S \<Longrightarrow> rev (insert_rev lt x (rev S)) = insert_left lt x S"
proof (induction S rule: rev_induct)
  case Nil
  then show ?case by simp
next
  case (snoc y S)
  have srt: "sorted_wrt (\<lambda>a b. \<not> lt b a) S" and le: "\<And>e. e \<in> set S \<Longrightarrow> \<not> lt y e"
    using snoc.prems by (auto simp: sorted_wrt_append)
  show ?case
  proof (cases "lt x y")
    case True
    then show ?thesis using snoc.IH [OF srt] by (simp add: insert_left_snoc_lt)
  next
    case False
    have "\<not> lt x e" if "e \<in> set (S @ [y])" for e
      using that False le swo_negtrans [OF s, of x y e] by auto
    then have "insert_left lt x (S @ [y]) = (S @ [y]) @ [x]" by (rule insert_left_all_ge)
    then show ?thesis using False by simp
  qed
qed

lemma ssort_snoc: "strict_weak_ordering lt \<Longrightarrow> ssort lt (xs @ [x]) = insert_left lt x (ssort lt xs)"
  using insert_rev_left [of lt "ssort lt xs" x] sorted_ssort [of lt xs]
  by (simp add: ssort_def isort_rev_def)

lemma insert_left_single: "insert_left lt x A = smerge lt A [x]"
  by (induction A) auto

lemma insert_left_smerge:
  "strict_weak_ordering lt \<Longrightarrow> insert_left lt x (smerge lt A B) = smerge lt A (insert_left lt x B)"
proof (induction lt A B rule: smerge.induct)
  case (1 lt ys)
  then show ?case by simp
next
  case (2 lt a A)
  then show ?case by (simp add: insert_left_single)
next
  case (3 lt a A b B)
  note s = \<open>strict_weak_ordering lt\<close>
  show ?case
  proof (cases "lt b a")
    case ba: True
    have IH: "insert_left lt x (smerge lt (a # A) B) = smerge lt (a # A) (insert_left lt x B)"
      by (rule "3.IH"(1) [OF ba s])
    show ?thesis
    proof (cases "lt x b")
      case True
      then have "lt x a" using ba swo_trans [OF s] by blast
      with True ba show ?thesis by simp
    next
      case False
      with ba IH show ?thesis by simp
    qed
  next
    case nba: False
    have IH: "insert_left lt x (smerge lt A (b # B)) = smerge lt A (insert_left lt x (b # B))"
      by (rule "3.IH"(2) [OF nba s])
    show ?thesis
    proof (cases "lt x b")
      case xb: True
      show ?thesis
      proof (cases "lt x a")
        case True
        with xb nba show ?thesis by simp
      next
        case False
        with xb nba IH show ?thesis by simp
      qed
    next
      case nxb: False
      then have "\<not> lt x a" using nba swo_negtrans [OF s, of x b a] by blast
      with nxb nba IH show ?thesis by simp
    qed
  qed
qed

lemma smerge_ssort: "strict_weak_ordering lt \<Longrightarrow> smerge lt (ssort lt U) (ssort lt V) = ssort lt (U @ V)"
proof (induction V rule: rev_induct)
  case Nil
  then show ?case by (simp add: ssort_def isort_rev_def)
next
  case (snoc x V)
  have "ssort lt (U @ V @ [x]) = insert_left lt x (ssort lt (U @ V))"
    using ssort_snoc [OF snoc.prems, of "U @ V" x] by simp
  also have "\<dots> = insert_left lt x (smerge lt (ssort lt U) (ssort lt V))"
    using snoc by simp
  also have "\<dots> = smerge lt (ssort lt U) (insert_left lt x (ssort lt V))"
    by (rule insert_left_smerge [OF snoc.prems])
  also have "\<dots> = smerge lt (ssort lt U) (ssort lt (V @ [x]))"
    by (simp add: ssort_snoc [OF snoc.prems])
  finally show ?case by simp
qed

subsection \<open>symMerge merges two adjacent sorted runs\<close>

lemma sorted_nth_le:
  assumes "strict_weak_ordering lt" "sorted_wrt (\<lambda>a b. \<not> lt b a) S" "k \<le> k'" "k' < length S"
  shows "\<not> lt (S ! k') (S ! k)"
proof (cases "k = k'")
  case True
  then show ?thesis using assms(1) by (simp add: swo_irrefl)
next
  case False
  then have "k < k'" using assms(3) by simp
  from sorted_wrt_nth_less [OF assms(2) this assms(4)] show ?thesis by simp
qed

lemma nth_seg1:
  assumes "a = length P" "a \<le> c" "c < a + length A"
  shows "(P @ A @ T) ! c = A ! (c - a)"
proof -
  have "c - a < length A" "\<not> c < length P" using assms by simp_all
  then show ?thesis using assms by (simp add: nth_append)
qed

lemma nth_seg2:
  assumes "a = length P" "m = a + length A" "m \<le> h" "h < m + length B"
  shows "(P @ A @ B @ R) ! h = B ! (h - m)"
  using nth_seg1 [of m "P @ A" h B R] assms by simp

lemma length_smerge: "length (smerge lt A B) = length A + length B"
  by (induction lt A B rule: smerge.induct) auto

lemma search_segment:
  assumes corr: "\<And>h. lo \<le> h \<Longrightarrow> h < lo + length S \<Longrightarrow> Q h = W (S ! (h - lo))"
    and mono: "\<And>k k'. k \<le> k' \<Longrightarrow> k' < length S \<Longrightarrow> W (S ! k') \<Longrightarrow> W (S ! k)"
  shows "\<exists>S1 S2. S = S1 @ S2 \<and> search_loop Q lo (lo + length S) = lo + length S1 \<and>
           (\<forall>y \<in> set S1. W y) \<and> (\<forall>y \<in> set S2. \<not> W y)"
proof -
  define i where "i = search_loop Q lo (lo + length S)"
  have part: "lo \<le> i \<and> i \<le> lo + length S \<and> (\<forall>h. lo \<le> h \<and> h < i \<longrightarrow> Q h) \<and>
      (\<forall>h. i \<le> h \<and> h < lo + length S \<longrightarrow> \<not> Q h)"
    unfolding i_def
  proof (rule search_loop_partition)
    show "lo \<le> lo + length S" by simp
    show "Q h" if "lo \<le> h" "h \<le> h'" "h' < lo + length S" "Q h'" for h h'
    proof -
      have "W (S ! (h' - lo))" using corr [of h'] that by simp
      then have "W (S ! (h - lo))" using mono [of "h - lo" "h' - lo"] that by simp
      then show ?thesis using corr [of h] that by simp
    qed
  qed
  define S1 where "S1 = take (i - lo) S"
  define S2 where "S2 = drop (i - lo) S"
  have "i - lo \<le> length S" using part by linarith
  then have l1: "length S1 = i - lo" by (simp add: S1_def)
  have "W y" if "y \<in> set S1" for y
  proof -
    from that obtain k where k: "k < length S1" "S1 ! k = y" by (auto simp: in_set_conv_nth)
    then have "Q (lo + k)" using part l1 by simp
    moreover have "k < length S" using k l1 part by linarith
    ultimately have "W (S ! k)" using corr [of "lo + k"] by simp
    then show ?thesis using k by (simp add: S1_def)
  qed
  moreover have "\<not> W y" if "y \<in> set S2" for y
  proof -
    from that obtain k where k: "k < length S2" "S2 ! k = y" by (auto simp: in_set_conv_nth)
    then have kk: "i - lo + k < length S" by (simp add: S2_def)
    then have "\<not> Q (i + k)" using part by simp
    then have "\<not> W (S ! (i + k - lo))" using corr [of "i + k"] kk part by simp
    moreover have "i + k - lo = i - lo + k" using part by simp
    ultimately show ?thesis using k kk by (simp add: S2_def)
  qed
  moreover have "S = S1 @ S2" by (simp add: S1_def S2_def)
  moreover have "i = lo + length S1" using l1 part by simp
  ultimately show ?thesis unfolding i_def by blast
qed

lemma symMerge_single_left:
  assumes s: "strict_weak_ordering lt" and B: "sorted_wrt (\<lambda>a b. \<not> lt b a) B"
    and xs: "xs = P @ [x] @ B @ R" and a: "a = length P" and m: "m = a + 1" and b: "b = m + length B"
  shows "shift_up xs a (search_loop (\<lambda>h. lt (xs ! h) (xs ! a)) m b - 1) = P @ smerge lt [x] B @ R"
proof -
  have xa: "xs ! a = x" using xs a by (simp add: nth_append)
  have "\<exists>S1 S2. B = S1 @ S2 \<and> search_loop (\<lambda>h. lt (xs ! h) (xs ! a)) m (m + length B) = m + length S1 \<and>
           (\<forall>y \<in> set S1. (\<lambda>e. lt e x) y) \<and> (\<forall>y \<in> set S2. \<not> (\<lambda>e. lt e x) y)"
  proof (rule search_segment)
    show "lt (xs ! h) (xs ! a) = lt (B ! (h - m)) x" if "m \<le> h" "h < m + length B" for h
      using nth_seg2 [of a P m "[x]" h B R] that xs a m xa by simp
    show "lt (B ! k) x" if "k \<le> k'" "k' < length B" "lt (B ! k') x" for k k'
      using sorted_nth_le [OF s B that(1,2)] that(3) swo_le_lt [OF s] by blast
  qed
  then obtain B1 B2 where B12: "B = B1 @ B2"
    and i: "search_loop (\<lambda>h. lt (xs ! h) (xs ! a)) m b = m + length B1"
    and lt1: "\<And>y. y \<in> set B1 \<Longrightarrow> lt y x" and ge2: "\<And>y. y \<in> set B2 \<Longrightarrow> \<not> lt y x"
    using b by blast
  have "shift_up (P @ x # B1 @ (B2 @ R)) a (a + length B1) = P @ B1 @ x # (B2 @ R)"
    by (rule shift_up_blocks) (use a in simp_all)
  moreover have "smerge lt [x] (B1 @ B2) = B1 @ x # B2"
    by (rule smerge_single_left) (use lt1 ge2 in auto)
  ultimately show ?thesis using i xs B12 m by simp
qed

lemma symMerge_single_right:
  assumes s: "strict_weak_ordering lt" and A: "sorted_wrt (\<lambda>a b. \<not> lt b a) A"
    and xs: "xs = P @ A @ [y] @ R" and a: "a = length P" and m: "m = a + length A"
  shows "shift_down xs m (search_loop (\<lambda>h. \<not> lt (xs ! m) (xs ! h)) a m) = P @ smerge lt A [y] @ R"
proof -
  have xm: "xs ! m = y" using xs a m by (simp add: nth_append)
  have "\<exists>S1 S2. A = S1 @ S2 \<and> search_loop (\<lambda>h. \<not> lt (xs ! m) (xs ! h)) a (a + length A) = a + length S1 \<and>
           (\<forall>e \<in> set S1. (\<lambda>e. \<not> lt y e) e) \<and> (\<forall>e \<in> set S2. \<not> (\<lambda>e. \<not> lt y e) e)"
  proof (rule search_segment)
    show "(\<not> lt (xs ! m) (xs ! h)) = (\<not> lt y (A ! (h - a)))" if "a \<le> h" "h < a + length A" for h
      using nth_seg1 [of a P h A "[y] @ R"] that xs a xm by simp
    show "\<not> lt y (A ! k)" if "k \<le> k'" "k' < length A" "\<not> lt y (A ! k')" for k k'
      using sorted_nth_le [OF s A that(1,2)] that(3) swo_negtrans [OF s] by blast
  qed
  then obtain A1 A2 where A12: "A = A1 @ A2"
    and i: "search_loop (\<lambda>h. \<not> lt (xs ! m) (xs ! h)) a m = a + length A1"
    and ge1: "\<And>e. e \<in> set A1 \<Longrightarrow> \<not> lt y e" and lt2: "\<And>e. e \<in> set A2 \<Longrightarrow> lt y e"
    using m by blast
  have "shift_down ((P @ A1) @ A2 @ y # R) (a + length A1 + length A2) (a + length A1)
          = (P @ A1) @ y # A2 @ R"
    by (rule shift_down_blocks) (use a in simp_all)
  then have "shift_down (P @ A1 @ A2 @ y # R) (a + (length A1 + length A2)) (a + length A1)
          = P @ A1 @ y # A2 @ R"
    by (simp add: add.assoc)
  moreover have "smerge lt (A1 @ A2) [y] = A1 @ y # A2"
    by (rule smerge_single_right) (use ge1 lt2 in auto)
  ultimately show ?thesis using i xs A12 m by simp
qed

lemma symMerge_split:
  assumes s: "strict_weak_ordering lt"
    and sA: "sorted_wrt (\<lambda>a b. \<not> lt b a) A" and sB: "sorted_wrt (\<lambda>a b. \<not> lt b a) B"
    and xs: "xs = P @ A @ B @ R" and a: "a = length P" and m: "m = a + length A"
    and b: "b = m + length B" and ne: "A \<noteq> []" "B \<noteq> []"
    and mid: "mid = (a + b) div 2" and n: "n = mid + m"
    and start0: "start0 = (if m > mid then n - b else a)"
    and r: "r = (if m > mid then mid else m)"
    and p: "p = n - 1"
    and st: "st = search_loop (\<lambda>c. \<not> lt (xs ! (p - c)) (xs ! c)) start0 r"
  shows "\<exists>A1 A2 B1 B2. A = A1 @ A2 \<and> B = B1 @ B2 \<and> st = a + length A1 \<and>
           n - st = m + length B1 \<and> length A1 + length B1 = mid - a \<and>
           (\<forall>x \<in> set A2. \<forall>y \<in> set B1. lt y x) \<and> (\<forall>x \<in> set A1. \<forall>y \<in> set B2. \<not> lt y x)"
proof -
  have la: "0 < length A" and lb: "0 < length B" using ne by simp_all
  have m1: "2 * mid \<le> a + b" and m2: "a + b < 2 * mid + 2" using mid by simp_all
  have K1: "a \<le> start0" using start0 n m b m1 m2 by (simp split: if_splits)
  have K2: "start0 \<le> r" using start0 r n m b m1 m2 la lb by (simp split: if_splits)
  have K3: "r \<le> m" using r by (simp split: if_splits)
  have K4: "r \<le> mid" using r by (simp split: if_splits)
  have K5: "mid + m \<le> start0 + b" using start0 n m b m1 m2 by (simp split: if_splits)
  have K6: "start0 = a \<or> start0 + b = mid + m" using start0 n m b m1 m2 by (simp split: if_splits)
  have K7: "r = m \<or> r = mid" using r by (simp split: if_splits)
  have mpos: "0 < mid + m" using m la by simp
  let ?Q = "\<lambda>c. \<not> lt (xs ! (p - c)) (xs ! c)"
  have idxA: "xs ! c = A ! (c - a)" if "a \<le> c" "c < m" for c
    using nth_seg1 [of a P c A "B @ R"] that xs a m by simp
  have idxB: "xs ! h = B ! (h - m)" if "m \<le> h" "h < b" for h
    using nth_seg2 [of a P m A h B R] that xs a m b by simp
  have Qc: "?Q c = (\<not> lt (B ! (mid - 1 - c)) (A ! (c - a)))" if "start0 \<le> c" "c < r" for c
  proof -
    have c1: "a \<le> c" "c < m" using that K1 K3 by simp_all
    have pc: "p - c = m + (mid - 1 - c)" using p n that K4 by simp
    have "p - c < b" using pc that K5 K4 by linarith
    then have "xs ! (p - c) = B ! (p - c - m)" using idxB [of "p - c"] pc by simp
    then show ?thesis using idxA [OF c1] pc by simp
  qed
  have part: "start0 \<le> st \<and> st \<le> r \<and> (\<forall>c. start0 \<le> c \<and> c < st \<longrightarrow> ?Q c) \<and>
      (\<forall>c. st \<le> c \<and> c < r \<longrightarrow> \<not> ?Q c)"
    unfolding st
  proof (rule search_loop_partition [OF K2])
    fix c c' assume cc: "start0 \<le> c" "c \<le> c'" "c' < r" and q: "?Q c'"
    have c'1: "start0 \<le> c'" and c1: "c < r" using cc by simp_all
    from q have q': "\<not> lt (B ! (mid - 1 - c')) (A ! (c' - a))" using Qc [OF c'1 cc(3)] by simp
    have "c' - a < length A" using cc K3 K1 m by linarith
    then have leA: "\<not> lt (A ! (c' - a)) (A ! (c - a))"
      using sorted_nth_le [OF s sA, of "c - a" "c' - a"] cc by simp
    have "mid - 1 - c < length B" using cc K5 K4 b by linarith
    then have leB: "\<not> lt (B ! (mid - 1 - c)) (B ! (mid - 1 - c'))"
      using sorted_nth_le [OF s sB, of "mid - 1 - c'" "mid - 1 - c"] cc by simp
    have "\<not> lt (B ! (mid - 1 - c)) (A ! (c' - a))"
      using swo_negtrans [OF s leB q'] .
    then have "\<not> lt (B ! (mid - 1 - c)) (A ! (c - a))"
      using swo_negtrans [OF s _ leA] by blast
    then show "?Q c" using Qc [OF cc(1) c1] by simp
  qed
  define A1 where "A1 = take (st - a) A"
  define A2 where "A2 = drop (st - a) A"
  define e where "e = n - st"
  define B1 where "B1 = take (e - m) B"
  define B2 where "B2 = drop (e - m) B"
  have st_lo: "a \<le> st" and st_hi: "st \<le> m" and st_mid: "st \<le> mid"
    using part K1 K3 K4 by simp_all
  have e_eq: "e + st = mid + m" using e_def n st_mid by simp
  have e_lo: "m \<le> e" using e_eq st_mid by simp
  have e_hi: "e \<le> b" using e_eq part K5 by linarith
  have lA1: "length A1 = st - a" using st_hi m by (simp add: A1_def)
  have lB1: "length B1 = e - m" using e_hi b by (simp add: B1_def)
  have A12: "A = A1 @ A2" by (simp add: A1_def A2_def)
  have B12: "B = B1 @ B2" by (simp add: B1_def B2_def)
  have X1: "lt y x" if x: "x \<in> set A2" and y: "y \<in> set B1" for x y
  proof -
    from x obtain k where k: "k < length A2" "A2 ! k = x" by (auto simp: in_set_conv_nth)
    from y obtain l where l: "l < length B1" "B1 ! l = y" by (auto simp: in_set_conv_nth)
    have stm: "st < m" using k m st_lo by (simp add: A2_def)
    have em: "m < e" using l lB1 by simp
    then have "st < mid" using e_eq by simp
    then have "st < r" using stm K7 by auto
    then have nq: "\<not> ?Q st" using part by simp
    have "lt (B ! (mid - 1 - st)) (A ! (st - a))"
      using nq Qc [of st] part \<open>st < r\<close> by simp
    moreover have "mid - 1 - st = e - m - 1" using e_eq em by simp
    ultimately have mid_lt: "lt (B ! (e - m - 1)) (A ! (st - a))" by simp
    have xk: "x = A ! (st - a + k)" using k st_hi m by (simp add: A2_def)
    have "st - a + k < length A" using k by (simp add: A2_def)
    then have lex: "\<not> lt x (A ! (st - a))"
      using sorted_nth_le [OF s sA, of "st - a" "st - a + k"] xk by simp
    have yl: "y = B ! l" using l by (simp add: B1_def)
    have "e - m - 1 < length B" using e_hi em b by linarith
    then have ley: "\<not> lt (B ! (e - m - 1)) y"
      using sorted_nth_le [OF s sB, of l "e - m - 1"] l lB1 yl by simp
    have "lt y (A ! (st - a))" using swo_le_lt [OF s ley mid_lt] .
    then show ?thesis using swo_lt_le [OF s _ lex] by blast
  qed
  have X2: "\<not> lt y x" if x: "x \<in> set A1" and y: "y \<in> set B2" for x y
  proof -
    from x obtain k where k: "k < length A1" "A1 ! k = x" by (auto simp: in_set_conv_nth)
    from y obtain l where l: "l < length B2" "B2 ! l = y" by (auto simp: in_set_conv_nth)
    have sta: "a < st" using k lA1 by simp
    have eb: "e < b" using l b e_lo by (simp add: B2_def)
    then have "st + b > mid + m" using e_eq by simp
    then have "start0 < st" using sta K6 part by auto
    then have "start0 \<le> st - 1 \<and> st - 1 < st" by linarith
    with part have q: "?Q (st - 1)" by blast
    have "st \<le> r" using part by blast
    then have "st - 1 < r" using sta by linarith
    moreover have "start0 \<le> st - 1" using \<open>start0 < st\<close> by linarith
    ultimately have "\<not> lt (B ! (mid - 1 - (st - 1))) (A ! (st - 1 - a))"
      using q Qc [of "st - 1"] by blast
    moreover have "mid - 1 - (st - 1) = e - m" using e_eq sta st_mid by simp
    ultimately have mid_le: "\<not> lt (B ! (e - m)) (A ! (st - 1 - a))" by simp
    have xk: "x = A ! k" using k by (simp add: A1_def)
    have "st - 1 - a < length A" using sta st_hi m by linarith
    then have lex: "\<not> lt (A ! (st - 1 - a)) x"
      using sorted_nth_le [OF s sA, of k "st - 1 - a"] k lA1 xk by simp
    have yl: "y = B ! (e - m + l)" using l e_hi b by (simp add: B2_def)
    have "e - m + l < length B" using l by (simp add: B2_def)
    then have ley: "\<not> lt y (B ! (e - m))"
      using sorted_nth_le [OF s sB, of "e - m" "e - m + l"] yl by simp
    have "\<not> lt y (A ! (st - 1 - a))" using swo_negtrans [OF s ley mid_le] .
    then show ?thesis using swo_negtrans [OF s _ lex] by blast
  qed
  have "st = a + length A1" using lA1 st_lo by simp
  moreover have "n - st = m + length B1" using lB1 e_lo e_def by simp
  moreover have "length A1 + length B1 = mid - a" using lA1 lB1 e_eq st_lo e_lo by linarith
  ultimately show ?thesis using A12 B12 X1 X2 by blast
qed

lemma symMerge_func_merges:
  assumes s: "strict_weak_ordering lt"
  shows "sorted_wrt (\<lambda>a b. \<not> lt b a) A \<Longrightarrow> sorted_wrt (\<lambda>a b. \<not> lt b a) B \<Longrightarrow>
     xs = P @ A @ B @ R \<Longrightarrow> a = length P \<Longrightarrow> m = a + length A \<Longrightarrow> b = m + length B \<Longrightarrow>
     A \<noteq> [] \<Longrightarrow> B \<noteq> [] \<Longrightarrow>
     symMerge_func lt xs a m b = Some (P @ smerge lt A B @ R)"
proof (induction "length A + length B" arbitrary: A B xs P R a m b rule: less_induct)
  case less
  note sA = less.prems(1) and sB = less.prems(2) and xs = less.prems(3) and a = less.prems(4)
    and m = less.prems(5) and b = less.prems(6) and neA = less.prems(7) and neB = less.prems(8)
  consider (left) "length A = 1" | (right) "length A \<noteq> 1" "length B = 1"
    | (general) "length A \<noteq> 1" "length B \<noteq> 1" by blast
  then show ?case
  proof cases
    case left
    then obtain x where A: "A = [x]" by (cases A) auto
    have ma: "m - a = 1" "m = a + 1" using m A by simp_all
    have "symMerge_func lt xs a m b
            = Some (shift_up xs a (search_loop (\<lambda>h. lt (xs ! h) (xs ! a)) m b - 1))"
      using ma by (subst symMerge_func.simps) (simp add: Let_def)
    also have "shift_up xs a (search_loop (\<lambda>h. lt (xs ! h) (xs ! a)) m b - 1) = P @ smerge lt [x] B @ R"
      by (rule symMerge_single_left [OF s sB _ a ma(2) b]) (use xs A in simp)
    finally show ?thesis using A by simp
  next
    case right
    then obtain y where B: "B = [y]" by (cases B) auto
    have ma: "m - a \<noteq> 1" "b - m = 1" using m b B right by simp_all
    have "symMerge_func lt xs a m b
            = Some (shift_down xs m (search_loop (\<lambda>h. \<not> lt (xs ! m) (xs ! h)) a m))"
      using ma by (subst symMerge_func.simps) (simp add: Let_def)
    also have "shift_down xs m (search_loop (\<lambda>h. \<not> lt (xs ! m) (xs ! h)) a m) = P @ smerge lt A [y] @ R"
      by (rule symMerge_single_right [OF s sA _ a m]) (use xs B in simp)
    finally show ?thesis using B by simp
  next
    case general
    have ma: "m - a \<noteq> 1" "b - m \<noteq> 1" using m b general by simp_all
    have "length A \<noteq> 0" "length B \<noteq> 0" using neA neB by simp_all
    then have la: "2 \<le> length A" and lb: "2 \<le> length B" using general by linarith+
    define mid where "mid = (a + b) div 2"
    define n where "n = mid + m"
    define start0 where "start0 = (if m > mid then n - b else a)"
    define r where "r = (if m > mid then mid else m)"
    define p where "p = n - 1"
    define st where "st = search_loop (\<lambda>c. \<not> lt (xs ! (p - c)) (xs ! c)) start0 r"
    define e where "e = n - st"
    have unfold: "symMerge_func lt xs a m b =
        do { xs1 \<leftarrow> (if st < m \<and> m < e then rotate_func xs st m e else Some xs);
             xs2 \<leftarrow> (if a < st \<and> st < mid then symMerge_func lt xs1 a st mid else Some xs1);
             (if mid < e \<and> e < b then symMerge_func lt xs2 mid e b else Some xs2) }"
      unfolding e_def st_def p_def r_def start0_def n_def mid_def
      by (subst symMerge_func.simps) (simp only: ma if_False Let_def)
    obtain A1 A2 B1 B2 where A12: "A = A1 @ A2" and B12: "B = B1 @ B2"
      and st_eq: "st = a + length A1" and e_eq': "n - st = m + length B1"
      and half: "length A1 + length B1 = mid - a"
      and X1: "\<And>x y. x \<in> set A2 \<Longrightarrow> y \<in> set B1 \<Longrightarrow> lt y x"
      and X2: "\<And>x y. x \<in> set A1 \<Longrightarrow> y \<in> set B2 \<Longrightarrow> \<not> lt y x"
      using symMerge_split [OF s sA sB xs a m b neA neB mid_def n_def start0_def r_def p_def st_def]
      by blast
    have e_eq: "e = m + length B1" using e_eq' e_def by simp
    have m_eq: "m = st + length A2" using m st_eq A12 by simp
    have b_eq: "b = e + length B2" using b e_eq B12 by simp
    have m1: "2 * mid \<le> a + b" and m2: "a + b < 2 * mid + 2" using mid_def by simp_all
    have amid: "a < mid" and midb: "mid < b" using m1 m2 m b la lb by linarith+
    have mid_eq: "mid = a + length A1 + length B1" using half amid by linarith
    have sorted: "sorted_wrt (\<lambda>a b. \<not> lt b a) A1" "sorted_wrt (\<lambda>a b. \<not> lt b a) A2"
      "sorted_wrt (\<lambda>a b. \<not> lt b a) B1" "sorted_wrt (\<lambda>a b. \<not> lt b a) B2"
      using sA sB A12 B12 by (simp_all add: sorted_wrt_append)
    have step1: "(if st < m \<and> m < e then rotate_func xs st m e else Some xs)
                   = Some (P @ A1 @ B1 @ A2 @ B2 @ R)"
    proof (cases "st < m \<and> m < e")
      case True
      then have ne: "A2 \<noteq> []" "B1 \<noteq> []" using m_eq e_eq by auto
      have "rotate_func ((P @ A1) @ A2 @ B1 @ (B2 @ R)) st m e = Some ((P @ A1) @ B1 @ A2 @ (B2 @ R))"
        by (rule rotate_func_blocks) (use st_eq a m_eq e_eq ne in simp_all)
      then show ?thesis using True xs A12 B12 by simp
    next
      case False
      then have "A2 = [] \<or> B1 = []" using m_eq e_eq by auto
      then show ?thesis using False xs A12 B12 by auto
    qed
    have step2: "(if a < st \<and> st < mid then symMerge_func lt (P @ A1 @ B1 @ A2 @ B2 @ R) a st mid
                  else Some (P @ A1 @ B1 @ A2 @ B2 @ R))
                   = Some (P @ smerge lt A1 B1 @ A2 @ B2 @ R)"
    proof (cases "a < st \<and> st < mid")
      case True
      then have ne: "A1 \<noteq> []" "B1 \<noteq> []" using st_eq mid_eq by auto
      have "symMerge_func lt (P @ A1 @ B1 @ (A2 @ B2 @ R)) a st mid
              = Some (P @ smerge lt A1 B1 @ (A2 @ B2 @ R))"
      proof (rule less.hyps [OF _ sorted(1) sorted(3) refl a])
        show "length A1 + length B1 < length A + length B"
          using half amid midb m b a by linarith
        show "st = a + length A1" by (rule st_eq)
        show "mid = st + length B1" using mid_eq st_eq by simp
      qed (rule ne)+
      then show ?thesis using True by simp
    next
      case False
      then have "A1 = [] \<or> B1 = []" using st_eq mid_eq by auto
      then show ?thesis using False by auto
    qed
    have step3: "(if mid < e \<and> e < b then symMerge_func lt (P @ smerge lt A1 B1 @ A2 @ B2 @ R) mid e b
                  else Some (P @ smerge lt A1 B1 @ A2 @ B2 @ R))
                   = Some (P @ smerge lt A1 B1 @ smerge lt A2 B2 @ R)"
    proof (cases "mid < e \<and> e < b")
      case True
      have e_mid: "e = mid + length A2" using e_eq m_eq mid_eq st_eq by simp
      from True have ne: "A2 \<noteq> []" "B2 \<noteq> []" using e_mid b_eq by auto
      have "symMerge_func lt ((P @ smerge lt A1 B1) @ A2 @ B2 @ R) mid e b
              = Some ((P @ smerge lt A1 B1) @ smerge lt A2 B2 @ R)"
      proof (rule less.hyps [OF _ sorted(2) sorted(4) refl])
        show "length A2 + length B2 < length A + length B"
          using e_mid b_eq amid m b a by linarith
        show "mid = length (P @ smerge lt A1 B1)" using mid_eq a by (simp add: length_smerge)
        show "e = mid + length A2" by (rule e_mid)
        show "b = e + length B2" by (rule b_eq)
      qed (rule ne)+
      then show ?thesis using True by simp
    next
      case False
      have e_mid: "e = mid + length A2" using e_eq m_eq mid_eq st_eq by simp
      from False have "A2 = [] \<or> B2 = []" using e_mid b_eq by auto
      then show ?thesis using False by auto
    qed
    have "smerge lt (A1 @ A2) (B1 @ B2) = smerge lt A1 B1 @ smerge lt A2 B2"
      by (rule smerge_split) (use X1 X2 in auto)
    then have "Some (P @ smerge lt A1 B1 @ smerge lt A2 B2 @ R) = Some (P @ smerge lt A B @ R)"
      using A12 B12 by simp
    then show ?thesis
      unfolding unfold step1 bind.bind_lunit step2 step3 .
  qed
qed

subsection \<open>The loops of stable\<close>

lemma ssort_Nil [simp]: "ssort lt [] = []"
  by (simp add: ssort_def isort_rev_def)

lemma chunk_sort_small: "length U \<le> bs \<Longrightarrow> chunk_sort lt bs U = ssort lt U"
  by (subst chunk_sort.simps, subst chunk_sort.simps) auto

lemma chunk_sort_step:
  "0 < bs \<Longrightarrow> bs \<le> length U \<Longrightarrow>
     chunk_sort lt bs U = ssort lt (take bs U) @ chunk_sort lt bs (drop bs U)"
  by (subst chunk_sort.simps) simp

lemma length_chunk_sort: "length (chunk_sort lt bs U) = length U"
proof (induction lt bs U rule: chunk_sort.induct)
  case (1 lt bs xs)
  show ?case
  proof (cases "0 < bs \<and> bs \<le> length xs")
    case True
    then show ?thesis using 1 by (subst chunk_sort.simps) (simp add: length_ssort)
  next
    case False
    then show ?thesis by (subst chunk_sort.simps) (auto simp: length_ssort)
  qed
qed

lemma stable_insertion_loop_chunks:
  "0 < bs \<Longrightarrow> xs = P @ U \<Longrightarrow> a = length P \<Longrightarrow> b = a + bs \<Longrightarrow> n = length xs \<Longrightarrow>
   \<exists>xs1 a'. stable_insertion_loop lt n bs xs a b = Some (xs1, a') \<and>
     insertionSort_func lt xs1 a' n = P @ chunk_sort lt bs U"
proof (induction "length U" arbitrary: P U xs a b rule: less_induct)
  case less
  show ?case
  proof (cases "b \<le> n")
    case True
    then have bsU: "bs \<le> length U" using less.prems by simp
    have "insertionSort_func lt (P @ take bs U @ drop bs U) (length P) (length P + length (take bs U))
            = P @ ssort lt (take bs U) @ drop bs U"
      by (rule insertionSort_func_segment)
    then have srt: "insertionSort_func lt xs a b = (P @ ssort lt (take bs U)) @ drop bs U"
      using less.prems bsU by simp
    have step: "stable_insertion_loop lt n bs xs a b
                  = stable_insertion_loop lt n bs ((P @ ssort lt (take bs U)) @ drop bs U) b (b + bs)"
      using True srt by (subst stable_insertion_loop.simps) simp
    have "\<exists>xs1 a'. stable_insertion_loop lt n bs ((P @ ssort lt (take bs U)) @ drop bs U) b (b + bs)
              = Some (xs1, a') \<and>
            insertionSort_func lt xs1 a' n = (P @ ssort lt (take bs U)) @ chunk_sort lt bs (drop bs U)"
      by (rule less.hyps) (use less.prems bsU in \<open>simp_all add: length_ssort\<close>)
    then show ?thesis unfolding step using chunk_sort_step [of bs U lt] less.prems(1) bsU by simp
  next
    case False
    then have small: "length U < bs" using less.prems by simp
    have "stable_insertion_loop lt n bs xs a b = Some (xs, a)"
      using False by (subst stable_insertion_loop.simps) simp
    moreover have "insertionSort_func lt (P @ U @ []) (length P) (length P + length U) = P @ ssort lt U @ []"
      by (rule insertionSort_func_segment)
    ultimately show ?thesis using less.prems small by (simp add: chunk_sort_small)
  qed
qed

lemma stable_merge_loop_chunks:
  assumes s: "strict_weak_ordering lt"
  shows "0 < bs \<Longrightarrow> xs = P @ chunk_sort lt bs U \<Longrightarrow> a = length P \<Longrightarrow> b = a + 2 * bs \<Longrightarrow>
   n = length xs \<Longrightarrow>
   \<exists>xs1 a'. stable_merge_loop lt n bs xs a b = Some (xs1, a') \<and>
     (let m = a' + bs in if m < n then symMerge_func lt xs1 a' m n else Some xs1)
       = Some (P @ chunk_sort lt (2 * bs) U)"
proof (induction "length U" arbitrary: P U xs a b rule: less_induct)
  case less
  note bs = less.prems(1) and xs = less.prems(2) and a = less.prems(3) and b = less.prems(4)
    and n = less.prems(5)
  have nU: "n = length P + length U" using n xs by (simp add: length_chunk_sort)
  show ?case
  proof (cases "b \<le> n")
    case True
    then have big: "2 * bs \<le> length U" using nU a b by simp
    define U1 where "U1 = take bs U"
    define U2 where "U2 = take bs (drop bs U)"
    define U3 where "U3 = drop (2 * bs) U"
    have l1: "length U1 = bs" and l2: "length U2 = bs" using big by (simp_all add: U1_def U2_def)
    have d2: "drop bs (drop bs U) = U3" by (simp add: U3_def mult_2)
    have "bs \<le> length U" "bs \<le> length (drop bs U)" using big by simp_all
    then have c1: "chunk_sort lt bs U = ssort lt U1 @ ssort lt U2 @ chunk_sort lt bs U3"
      using chunk_sort_step [of bs U lt] chunk_sort_step [of bs "drop bs U" lt] bs
      unfolding d2 U1_def [symmetric] U2_def [symmetric] by simp
    have t2: "take (2 * bs) U = U1 @ U2"
      by (simp add: U1_def U2_def mult_2 take_add)
    have c2: "chunk_sort lt (2 * bs) U = ssort lt (U1 @ U2) @ chunk_sort lt (2 * bs) U3"
      using chunk_sort_step [of "2 * bs" U lt] bs big by (simp add: t2 U3_def)
    have "symMerge_func lt (P @ ssort lt U1 @ ssort lt U2 @ chunk_sort lt bs U3) a (a + bs) b
            = Some (P @ smerge lt (ssort lt U1) (ssort lt U2) @ chunk_sort lt bs U3)"
    proof (rule symMerge_func_merges [OF s sorted_ssort [OF s] sorted_ssort [OF s] refl a])
      show "a + bs = a + length (ssort lt U1)" by (simp add: length_ssort l1)
      show "b = a + bs + length (ssort lt U2)" using b by (simp add: length_ssort l2)
      show "ssort lt U1 \<noteq> []" using l1 bs length_ssort [of lt U1] by auto
      show "ssort lt U2 \<noteq> []" using l2 bs length_ssort [of lt U2] by auto
    qed
    then have sm: "symMerge_func lt xs a (a + bs) b
            = Some ((P @ ssort lt (U1 @ U2)) @ chunk_sort lt bs U3)"
      using xs c1 smerge_ssort [OF s, of U1 U2] by simp
    have step: "stable_merge_loop lt n bs xs a b
         = stable_merge_loop lt n bs ((P @ ssort lt (U1 @ U2)) @ chunk_sort lt bs U3) b (b + 2 * bs)"
      using True sm by (subst stable_merge_loop.simps) simp
    have "\<exists>xs1 a'. stable_merge_loop lt n bs ((P @ ssort lt (U1 @ U2)) @ chunk_sort lt bs U3) b (b + 2 * bs)
              = Some (xs1, a') \<and>
            (let m = a' + bs in if m < n then symMerge_func lt xs1 a' m n else Some xs1)
              = Some ((P @ ssort lt (U1 @ U2)) @ chunk_sort lt (2 * bs) U3)"
    proof (rule less.hyps [OF _ bs refl])
      show "length U3 < length U" using big bs by (simp add: U3_def)
      show "b = length (P @ ssort lt (U1 @ U2))" using a b l1 l2 by (simp add: length_ssort)
      show "n = length ((P @ ssort lt (U1 @ U2)) @ chunk_sort lt bs U3)"
        using nU big l1 l2 by (simp add: length_ssort length_chunk_sort U3_def)
    qed simp
    then show ?thesis unfolding step using c2 by simp
  next
    case False
    then have small: "length U < 2 * bs" using nU a b by simp
    have loop: "stable_merge_loop lt n bs xs a b = Some (xs, a)"
      using False by (subst stable_merge_loop.simps) simp
    have tgt: "chunk_sort lt (2 * bs) U = ssort lt U" using small by (simp add: chunk_sort_small)
    show ?thesis
    proof (cases "a + bs < n")
      case True
      then have bsU: "bs < length U" using nU a by simp
      define U1 where "U1 = take bs U"
      define U2 where "U2 = drop bs U"
      have l1: "length U1 = bs" and l2: "0 < length U2" "length U2 < bs"
        using bsU small by (simp_all add: U1_def U2_def)
      have c1: "chunk_sort lt bs U = ssort lt U1 @ ssort lt U2"
        using chunk_sort_step [of bs U lt] chunk_sort_small [of U2 bs lt] bs bsU l2
        by (simp add: U1_def U2_def)
      have "symMerge_func lt (P @ ssort lt U1 @ ssort lt U2 @ []) a (a + bs) n
              = Some (P @ smerge lt (ssort lt U1) (ssort lt U2) @ [])"
      proof (rule symMerge_func_merges [OF s sorted_ssort [OF s] sorted_ssort [OF s] refl a])
        show "a + bs = a + length (ssort lt U1)" by (simp add: length_ssort l1)
        show "n = a + bs + length (ssort lt U2)"
          using nU a bsU by (simp add: length_ssort U2_def)
        show "ssort lt U1 \<noteq> []" using l1 bs length_ssort [of lt U1] by auto
        show "ssort lt U2 \<noteq> []" using l2 length_ssort [of lt U2] by auto
      qed
      then have "symMerge_func lt xs a (a + bs) n = Some (P @ ssort lt U)"
        using xs c1 smerge_ssort [OF s, of U1 U2] by (simp add: U1_def U2_def)
      then show ?thesis using loop True tgt by simp
    next
      case False
      then have "length U \<le> bs" using nU a by simp
      then have "chunk_sort lt bs U = ssort lt U" by (rule chunk_sort_small)
      then show ?thesis using loop False tgt xs by simp
    qed
  qed
qed

lemma stable_pass_loop_sorts:
  assumes s: "strict_weak_ordering lt"
  shows "0 < bs \<Longrightarrow> xs = chunk_sort lt bs U \<Longrightarrow> n = length U \<Longrightarrow>
     stable_pass_loop lt n xs bs = Some (ssort lt U)"
proof (induction "n - bs" arbitrary: bs xs rule: less_induct)
  case less
  show ?case
  proof (cases "bs < n")
    case False
    then have "chunk_sort lt bs U = ssort lt U" using less.prems by (simp add: chunk_sort_small)
    then show ?thesis using False less.prems by (subst stable_pass_loop.simps) simp
  next
    case True
    have "\<exists>xs1 a'. stable_merge_loop lt n bs xs 0 (0 + 2 * bs) = Some (xs1, a') \<and>
       (let m = a' + bs in if m < n then symMerge_func lt xs1 a' m n else Some xs1)
         = Some ([] @ chunk_sort lt (2 * bs) U)"
      by (rule stable_merge_loop_chunks [OF s less.prems(1)])
         (use less.prems in \<open>simp_all add: length_chunk_sort\<close>)
    then obtain xs1 a' where ml: "stable_merge_loop lt n bs xs 0 (2 * bs) = Some (xs1, a')"
      and fin: "(let m = a' + bs in if m < n then symMerge_func lt xs1 a' m n else Some xs1)
         = Some (chunk_sort lt (2 * bs) U)"
      by auto
    have step: "stable_pass_loop lt n xs bs = stable_pass_loop lt n (chunk_sort lt (2 * bs) U) (bs * 2)"
      using True ml fin by (subst stable_pass_loop.simps) simp
    have "stable_pass_loop lt n (chunk_sort lt (2 * bs) U) (2 * bs) = Some (ssort lt U)"
      by (rule less.hyps) (use True less.prems in simp_all)
    then show ?thesis unfolding step by (simp add: mult.commute)
  qed
qed

lemma stable_func_sorts: "strict_weak_ordering lt \<Longrightarrow> stable_func lt xs (length xs) = Some (ssort lt xs)"
proof -
  assume s: "strict_weak_ordering lt"
  have "\<exists>xs1 a'. stable_insertion_loop lt (length xs) 20 xs 0 (0 + 20) = Some (xs1, a') \<and>
     insertionSort_func lt xs1 a' (length xs) = [] @ chunk_sort lt 20 xs"
    by (rule stable_insertion_loop_chunks) simp_all
  then obtain xs1 a' where il: "stable_insertion_loop lt (length xs) 20 xs 0 20 = Some (xs1, a')"
    and fin: "insertionSort_func lt xs1 a' (length xs) = chunk_sort lt 20 xs"
    by auto
  have "stable_pass_loop lt (length xs) (chunk_sort lt 20 xs) 20 = Some (ssort lt xs)"
    by (rule stable_pass_loop_sorts [OF s]) simp_all
  then show ?thesis using il fin by (simp add: stable_func_def)
qed

lemma SliceStable_sorts: "strict_weak_ordering lt \<Longrightarrow> SliceStable lt xs = Some (ssort lt xs)"
  by (simp add: SliceStable_def stable_func_sorts)

subsection \<open>Stability, and the sort on pairs\<close>

lemma filter_insert_rev:
  assumes irrefl: "\<And>a. \<not> lt a a" and pq: "\<not> lt p q" "\<not> lt q p"
  shows "filter (\<lambda>e. e = p \<or> e = q) (insert_rev lt x rs) = filter (\<lambda>e. e = p \<or> e = q) (x # rs)"
proof (induction rs)
  case Nil
  then show ?case by simp
next
  case (Cons y ys)
  show ?case
  proof (cases "lt x y")
    case False
    then show ?thesis by simp
  next
    case True
    then have "\<not> ((x = p \<or> x = q) \<and> (y = p \<or> y = q))"
      using irrefl pq by auto
    with True Cons.IH show ?thesis by auto
  qed
qed

lemma filter_isort_rev:
  assumes irrefl: "\<And>a. \<not> lt a a" and pq: "\<not> lt p q" "\<not> lt q p"
  shows "filter (\<lambda>e. e = p \<or> e = q) (rev (isort_rev lt rs xs))
           = filter (\<lambda>e. e = p \<or> e = q) (rev rs @ xs)"
  unfolding isort_rev_def
proof (induction xs arbitrary: rs)
  case Nil
  then show ?case by simp
next
  case (Cons x xs)
  have "filter (\<lambda>e. e = p \<or> e = q) (rev (foldl (\<lambda>acc x. insert_rev lt x acc) (insert_rev lt x rs) xs))
          = filter (\<lambda>e. e = p \<or> e = q) (rev (insert_rev lt x rs) @ xs)"
    by (rule Cons.IH)
  also have "\<dots> = filter (\<lambda>e. e = p \<or> e = q) (rev (x # rs) @ xs)"
    using filter_insert_rev [of lt p q x rs, OF irrefl pq] by (simp add: rev_filter [symmetric])
  finally show ?case by simp
qed

lemma strict_weak_ordering_by_key:
  assumes "strict_weak_ordering f"
  shows "strict_weak_ordering (by_key f)"
proof -
  from assms have irrefl: "\<And>x. \<not> f x x"
    and trans: "\<And>x y z. f x y \<Longrightarrow> f y z \<Longrightarrow> f x z"
    and inc: "\<And>x y z. \<not> f x y \<Longrightarrow> \<not> f y x \<Longrightarrow> \<not> f y z \<Longrightarrow> \<not> f z y \<Longrightarrow> \<not> f x z \<and> \<not> f z x"
    unfolding strict_weak_ordering_def by blast+
  show ?thesis
    unfolding strict_weak_ordering_def by_key_def
    using irrefl trans inc by (intro conjI allI impI) blast+
qed

lemma SliceStable_props:
  assumes "strict_weak_ordering f"
  shows "SliceStable (by_key f) ps = Some (ssort (by_key f) ps)"
    and "mset (ssort (by_key f) ps) = mset ps"
    and "sorted_by f (ssort (by_key f) ps)"
    and "\<not> f (Key p) (Key q) \<Longrightarrow> \<not> f (Key q) (Key p) \<Longrightarrow>
           same_relative_order p q (ssort (by_key f) ps) ps"
proof -
  note s = strict_weak_ordering_by_key [OF assms]
  show "SliceStable (by_key f) ps = Some (ssort (by_key f) ps)"
    by (rule SliceStable_sorts [OF s])
  show "mset (ssort (by_key f) ps) = mset ps"
    by (simp add: ssort_def mset_isort_rev)
  have "sorted_wrt (\<lambda>a b. \<not> by_key f b a) (ssort (by_key f) ps)"
    by (rule sorted_ssort [OF s])
  then show "sorted_by f (ssort (by_key f) ps)"
    by (simp add: sorted_by_def by_key_def)
  show "same_relative_order p q (ssort (by_key f) ps) ps"
    if "\<not> f (Key p) (Key q)" "\<not> f (Key q) (Key p)"
  proof -
    have "\<not> by_key f p q" "\<not> by_key f q p" using that by (simp_all add: by_key_def)
    from filter_isort_rev [of "by_key f" p q "[]" ps, OF swo_irrefl [OF s] this]
    show ?thesis by (simp add: same_relative_order_def ssort_def)
  qed
qed

lemma strict_weak_ordering_shorter: "strict_weak_ordering shorter"
  by (auto simp: strict_weak_ordering_def shorter_def)

lemma strict_weak_ordering_ascending: "strict_weak_ordering ascending"
  by (auto simp: strict_weak_ordering_def ascending_def)

lemma strict_weak_ordering_descending: "strict_weak_ordering descending"
  by (auto simp: strict_weak_ordering_def descending_def)

lemma SortedPairs_sorts:
  assumes "strict_weak_ordering f" "cmp = Some f \<or> cmp = None \<and> less_fn m = Some f"
  shows "\<exists>ps. SortedPairs z m cmp = Some (Inr ps, m) \<and>
           mset ps = mset (Pairs z m) \<and> sorted_by f ps \<and>
           (\<forall>p q. \<not> f (Key p) (Key q) \<and> \<not> f (Key q) (Key p)
               \<longrightarrow> same_relative_order p q ps (Pairs z m))"
proof -
  have sl: "SliceStable (by_key f) (Pairs z m) = Some (ssort (by_key f) (Pairs z m))"
    by (rule SliceStable_props(1) [OF assms(1)])
  have res: "SortedPairs z m cmp = Some (Inr (ssort (by_key f) (Pairs z m)), m)"
    using assms(2) sl by (auto simp: SortedPairs_def Pairs_def)
  have "mset (ssort (by_key f) (Pairs z m)) = mset (Pairs z m)"
    by (rule SliceStable_props(2) [OF assms(1)])
  moreover have "sorted_by f (ssort (by_key f) (Pairs z m))"
    by (rule SliceStable_props(3) [OF assms(1)])
  moreover have "\<forall>p q. \<not> f (Key p) (Key q) \<and> \<not> f (Key q) (Key p)
            \<longrightarrow> same_relative_order p q (ssort (by_key f) (Pairs z m)) (Pairs z m)"
    using SliceStable_props(4) [OF assms(1)] by blast
  ultimately show ?thesis unfolding res by blast
qed

lemma SortedPairs_override_frame:
  "map_option fst (SortedPairs z (m\<lparr>less_fn := r\<rparr>) (Some f)) = map_option fst (SortedPairs z m (Some f))"
  by (simp add: SortedPairs_def split: option.splits)

section \<open>The claims\<close>

text \<open>
  C1. Starting from a newly constructed container, after every sequence of \<open>Set\<close>,
  \<open>Upsert\<close>, \<open>Delete\<close>, \<open>Clear\<close>, \<open>InsertBefore\<close> and \<open>InsertAfter\<close> calls the keys of
  the order sequence are exactly the keys of the data mapping, and the order sequence
  holds no key twice.
\<close>

theorem bijection_invariant:
  "bijection_inv (fst (run_ops z ops (NewOrderedMap opts, s)))"
  by (rule inv_run_ops) (simp add: inv_New)

text \<open>
  C2. On a key that is present, \<open>Set\<close> replaces the value stored under that key and
  nothing else: the order sequence is the same list as before. \<open>Upsert\<close> on a present
  key leaves the order sequence and the values of all other keys as they were, and with a
  callback stores the callback's result under the key. Scenario A:
  \<open>Set b 2\<close>, \<open>Set a 1\<close>, \<open>Set a 3\<close> gives the pairs \<open>[(b, 2), (a, 3)]\<close>.
\<close>

theorem update_keeps_order:
  "data m key = Some old \<Longrightarrow>
     Set m key v = m\<lparr>data := (data m)(key \<mapsto> v)\<rparr> \<and>
     order (Set m key v) = order m \<and>
     order (fst (snd (Upsert z m key newVal fn s))) = order m \<and>
     (\<forall>k. k \<noteq> key \<longrightarrow> data (fst (snd (Upsert z m key newVal fn s))) k = data m k) \<and>
     fst (snd (Upsert z m key newVal (Some f) s)) = m\<lparr>data := (data m)(key \<mapsto> fst (f old s))\<rparr> \<and>
     Pairs (0::int) (Set (Set (Set (NewOrderedMap []) ''b'' 2) ''a'' 1) ''a'' 3)
       = [\<lparr>Key = ''b'', Value = 2\<rparr>, \<lparr>Key = ''a'', Value = 3\<rparr>]"
  by (simp add: Set_def Upsert_def Pairs_def NewOrderedMap_def map_index_def
      split: option.splits prod.splits)

theorem update_keeps_order_witness:
  "data (Set (Set (NewOrderedMap []) ''b'' (2::int)) ''a'' 1) ''a'' = Some 1 \<and>
   order (Set (Set (Set (NewOrderedMap []) ''b'' (2::int)) ''a'' 1) ''a'' 3) = [''b'', ''a''] \<and>
   order (fst (snd (Upsert 0 (Set (Set (NewOrderedMap []) ''b'' (2::int)) ''a'' 1) ''a'' 7
                      (Some (\<lambda>old (n::nat). (old + 1, Suc n))) 0))) = [''b'', ''a'']"
  using update_keeps_order [where m = "Set (Set (NewOrderedMap []) ''b'' (2::int)) ''a'' 1"
      and key = "''a''" and old = 1 and v = 3 and z = 0 and newVal = 7
      and fn = "Some (\<lambda>old (n::nat). (old + 1, Suc n))" and s = "0::nat"]
  by (simp add: Set_def NewOrderedMap_def)

text \<open>
  C3. When the target key stands in the order sequence, first at the position after \<open>pre\<close>,
  and the new key is absent from the mapping, \<open>InsertBefore\<close> and \<open>InsertAfter\<close> succeed,
  store the value under the new key and put the new key immediately before, respectively
  immediately after, the target; the keys before the insertion point keep their positions
  and the keys from the insertion point on stand one position later. In a container built
  by the operations a key of the mapping stands in the order sequence exactly once (C1),
  so \<open>pre\<close> and \<open>post\<close> are the keys before and after the target. Scenario B:
  \<open>Set a 1\<close>, \<open>Set c 3\<close>, \<open>InsertBefore c b 2\<close>, \<open>InsertAfter c d 4\<close> gives the keys
  \<open>[a, b, c, d]\<close>.
\<close>

theorem insert_before_after_position:
  "order m = pre @ target # post \<Longrightarrow> target \<notin> set pre \<Longrightarrow> data m key = None \<Longrightarrow>
     InsertBefore m target key v =
       (None, m\<lparr>data := (data m)(key \<mapsto> v), order := pre @ key # target # post\<rparr>) \<and>
     InsertAfter m target key v =
       (None, m\<lparr>data := (data m)(key \<mapsto> v), order := pre @ target # key # post\<rparr>) \<and>
     Keys (snd (InsertAfter (snd (InsertBefore (Set (Set (NewOrderedMap []) ''a'' (1::int)) ''c'' 3)
                                     ''c'' ''b'' 2)) ''c'' ''d'' 4))
       = [''a'', ''b'', ''c'', ''d'']"
  by (simp add: InsertBefore_at InsertAfter_at)
     (simp add: Keys_def InsertAfter_def InsertBefore_def Set_def NewOrderedMap_def
        indexOf_def copy_within_def)

theorem insert_before_after_position_witness:
  "order (Set (Set (NewOrderedMap []) ''a'' (1::int)) ''c'' 3) = [''a''] @ ''c'' # [] \<and>
   ''c'' \<notin> set [''a''] \<and>
   data (Set (Set (NewOrderedMap []) ''a'' (1::int)) ''c'' 3) ''b'' = None \<and>
   order (snd (InsertBefore (Set (Set (NewOrderedMap []) ''a'' (1::int)) ''c'' 3) ''c'' ''b'' 2))
     = [''a'', ''b'', ''c''] \<and>
   order (snd (InsertAfter (Set (Set (NewOrderedMap []) ''a'' (1::int)) ''c'' 3) ''c'' ''b'' 2))
     = [''a'', ''c'', ''b'']"
  using insert_before_after_position [where m = "Set (Set (NewOrderedMap []) ''a'' (1::int)) ''c'' 3"
      and pre = "[''a'']" and target = "''c''" and post = "[]" and key = "''b''" and v = 2]
  by (simp add: Set_def NewOrderedMap_def)

text \<open>
  C4. \<open>Delete\<close> of a present key returns the stored value with \<open>found = True\<close>, removes the
  key from the mapping and cuts its first occurrence out of the order sequence: the keys
  before it stay, the keys after it stand one position earlier in the same relative order;
  when the order sequence holds no key twice the key is gone from it. \<open>Delete\<close> of an
  absent key returns the zero value with \<open>found = False\<close> and the same container.
  Scenario E: after \<open>Set a 1\<close>, \<open>Set b 2\<close>, \<open>Set c 3\<close>, deleting \<open>b\<close> leaves the keys
  \<open>[a, c]\<close> and then deleting \<open>a\<close> leaves \<open>[c]\<close>.
\<close>

theorem delete_compacts:
  "(data m key = Some v \<longrightarrow> order m = pre @ key # post \<longrightarrow> key \<notin> set pre \<longrightarrow>
      Delete z m key = ((v, True), m\<lparr>data := (data m)(key := None), order := pre @ post\<rparr>)) \<and>
   (data m key = Some v \<longrightarrow> distinct (order m) \<longrightarrow>
      key \<notin> set (order (snd (Delete z m key))) \<and> data (snd (Delete z m key)) key = None) \<and>
   (data m key = None \<longrightarrow> Delete z m key = ((z, False), m)) \<and>
   Keys (snd (Delete (0::int) (Set (Set (Set (NewOrderedMap []) ''a'' 1) ''b'' 2) ''c'' 3) ''b''))
     = [''a'', ''c''] \<and>
   Keys (snd (Delete 0 (snd (Delete (0::int) (Set (Set (Set (NewOrderedMap []) ''a'' 1) ''b'' 2) ''c'' 3)
                                ''b'')) ''a''))
     = [''c'']"
  by (simp add: Delete_def removeFromOrder_eq remove1_first Keys_def Set_def NewOrderedMap_def)

theorem delete_compacts_witness:
  "data (Set (Set (Set (NewOrderedMap []) ''a'' (1::int)) ''b'' 2) ''c'' 3) ''b'' = Some 2 \<and>
   order (Set (Set (Set (NewOrderedMap []) ''a'' (1::int)) ''b'' 2) ''c'' 3) = [''a''] @ ''b'' # [''c''] \<and>
   ''b'' \<notin> set [''a''] \<and>
   distinct (order (Set (Set (Set (NewOrderedMap []) ''a'' (1::int)) ''b'' 2) ''c'' 3)) \<and>
   fst (Delete 0 (Set (Set (Set (NewOrderedMap []) ''a'' (1::int)) ''b'' 2) ''c'' 3) ''b'') = (2, True) \<and>
   order (snd (Delete 0 (Set (Set (Set (NewOrderedMap []) ''a'' (1::int)) ''b'' 2) ''c'' 3) ''b''))
     = [''a'', ''c''] \<and>
   data (Set (Set (Set (NewOrderedMap []) ''a'' (1::int)) ''b'' 2) ''c'' 3) ''x'' = None \<and>
   fst (Delete 0 (Set (Set (Set (NewOrderedMap []) ''a'' (1::int)) ''b'' 2) ''c'' 3) ''x'') = (0, False) \<and>
   order (snd (Delete 0 (Set (Set (Set (NewOrderedMap []) ''a'' (1::int)) ''b'' 2) ''c'' 3) ''x''))
     = [''a'', ''b'', ''c'']"
  using delete_compacts [where m = "Set (Set (Set (NewOrderedMap []) ''a'' (1::int)) ''b'' 2) ''c'' 3"
      and key = "''b''" and v = 2 and pre = "[''a'']" and post = "[''c'']" and z = 0]
    delete_compacts [where m = "Set (Set (Set (NewOrderedMap []) ''a'' (1::int)) ''b'' 2) ''c'' 3"
      and key = "''x''" and z = 0]
  by (simp add: Set_def NewOrderedMap_def)

text \<open>
  C5, as amended. For every comparator that is a strict weak ordering and every container
  state, \<open>SortedPairs\<close> with that comparator (given at the call, or registered and no
  comparator given at the call) returns a permutation of the insertion-order snapshot that
  is sorted by the comparator and in which any two entries the comparator treats as
  equivalent stand in the same relative order as in the snapshot; the container is not
  changed. Scenario C: with the registered comparator \<open>len a < len b\<close>, after \<open>Set aa 1\<close>,
  \<open>Set bb 2\<close>, \<open>Set c 3\<close> the sorted keys are \<open>[c, aa, bb]\<close>.
\<close>

theorem sorted_pairs_stable:
  "strict_weak_ordering f \<Longrightarrow> cmp = Some f \<or> cmp = None \<and> less_fn m = Some f \<Longrightarrow>
     (\<exists>ps. SortedPairs z m cmp = Some (Inr ps, m) \<and>
        mset ps = mset (Pairs z m) \<and>
        sorted_by f ps \<and>
        (\<forall>p q. \<not> f (Key p) (Key q) \<and> \<not> f (Key q) (Key p)
            \<longrightarrow> same_relative_order p q ps (Pairs z m))) \<and>
     map_option (map Key \<circ> projr \<circ> fst) (SortedPairs (0::int)
        (Set (Set (Set (NewOrderedMap [Some (WithComparator (Some shorter))]) ''aa'' 1) ''bb'' 2) ''c'' 3)
        None) = Some [''c'', ''aa'', ''bb'']"
proof -
  assume swo: "strict_weak_ordering f" and cmp: "cmp = Some f \<or> cmp = None \<and> less_fn m = Some f"
  have sl: "SliceStable (by_key f) (Pairs z m) = Some (ssort (by_key f) (Pairs z m))"
    by (rule SliceStable_props(1) [OF swo])
  from cmp have res: "SortedPairs z m cmp = Some (Inr (ssort (by_key f) (Pairs z m)), m)"
    using sl by (auto simp: SortedPairs_def Pairs_def)
  have scen: "map_option (map Key \<circ> projr \<circ> fst) (SortedPairs (0::int)
        (Set (Set (Set (NewOrderedMap [Some (WithComparator (Some shorter))]) ''aa'' 1) ''bb'' 2) ''c'' 3)
        None) = Some [''c'', ''aa'', ''bb'']"
    by (simp add: SortedPairs_def Set_def NewOrderedMap_def map_index_def SliceStable_def stable_func_def
        stable_insertion_loop.simps stable_pass_loop.simps insertionSort_func_def
        insertionSort_outer.simps insertionSort_inner.simps Swap_def
        shorter_def by_key_def)
  have "mset (ssort (by_key f) (Pairs z m)) = mset (Pairs z m)"
    by (rule SliceStable_props(2) [OF swo])
  moreover have "sorted_by f (ssort (by_key f) (Pairs z m))"
    by (rule SliceStable_props(3) [OF swo])
  moreover have "\<forall>p q. \<not> f (Key p) (Key q) \<and> \<not> f (Key q) (Key p)
            \<longrightarrow> same_relative_order p q (ssort (by_key f) (Pairs z m)) (Pairs z m)"
    using SliceStable_props(4) [OF swo] by blast
  ultimately show ?thesis
    unfolding res using scen by blast
qed

theorem sorted_pairs_stable_witness:
  "strict_weak_ordering shorter \<and>
   less_fn (Set (Set (Set (NewOrderedMap [Some (WithComparator (Some shorter))]) ''aa'' (1::int)) ''bb'' 2) ''c'' 3)
     = Some shorter \<and>
   (\<exists>ps. SortedPairs 0
            (Set (Set (Set (NewOrderedMap [Some (WithComparator (Some shorter))]) ''aa'' (1::int)) ''bb'' 2) ''c'' 3)
            None
          = Some (Inr ps,
              Set (Set (Set (NewOrderedMap [Some (WithComparator (Some shorter))]) ''aa'' (1::int)) ''bb'' 2) ''c'' 3) \<and>
      sorted_by shorter ps \<and>
      same_relative_order \<lparr>Key = ''aa'', Value = 1\<rparr> \<lparr>Key = ''bb'', Value = 2\<rparr> ps
        [\<lparr>Key = ''aa'', Value = 1\<rparr>, \<lparr>Key = ''bb'', Value = 2\<rparr>, \<lparr>Key = ''c'', Value = 3\<rparr>])"
proof -
  have pairs: "Pairs 0 (Set (Set (Set (NewOrderedMap [Some (WithComparator (Some shorter))]) ''aa'' (1::int)) ''bb'' 2) ''c'' 3)
      = [\<lparr>Key = ''aa'', Value = 1\<rparr>, \<lparr>Key = ''bb'', Value = 2\<rparr>, \<lparr>Key = ''c'', Value = 3\<rparr>]"
    by (simp add: Pairs_def Set_def NewOrderedMap_def map_index_def)
  have reg: "less_fn (Set (Set (Set (NewOrderedMap [Some (WithComparator (Some shorter))]) ''aa'' (1::int)) ''bb'' 2) ''c'' 3)
     = Some shorter"
    by (simp add: Set_def NewOrderedMap_def)
  have eqv: "\<not> shorter ''aa'' ''bb'' \<and> \<not> shorter ''bb'' ''aa''"
    by (simp add: shorter_def)
  from sorted_pairs_stable [where f = shorter and cmp = None and z = 0
      and m = "Set (Set (Set (NewOrderedMap [Some (WithComparator (Some shorter))]) ''aa'' (1::int)) ''bb'' 2) ''c'' 3",
      OF strict_weak_ordering_shorter] reg
  obtain ps where ps: "SortedPairs 0
            (Set (Set (Set (NewOrderedMap [Some (WithComparator (Some shorter))]) ''aa'' (1::int)) ''bb'' 2) ''c'' 3)
            None
          = Some (Inr ps,
              Set (Set (Set (NewOrderedMap [Some (WithComparator (Some shorter))]) ''aa'' (1::int)) ''bb'' 2) ''c'' 3)"
    and srt: "sorted_by shorter ps"
    and stab: "\<forall>p q. \<not> shorter (Key p) (Key q) \<and> \<not> shorter (Key q) (Key p) \<longrightarrow>
        same_relative_order p q ps
          (Pairs 0 (Set (Set (Set (NewOrderedMap [Some (WithComparator (Some shorter))]) ''aa'' (1::int)) ''bb'' 2) ''c'' 3))"
    by blast
  from stab eqv have "same_relative_order \<lparr>Key = ''aa'', Value = 1\<rparr> \<lparr>Key = ''bb'', Value = 2\<rparr> ps
        [\<lparr>Key = ''aa'', Value = 1\<rparr>, \<lparr>Key = ''bb'', Value = 2\<rparr>, \<lparr>Key = ''c'', Value = 3\<rparr>]"
    unfolding pairs [symmetric] by simp
  with ps srt reg strict_weak_ordering_shorter show ?thesis by blast
qed

text \<open>
  C5 as stated, for every comparator, fails: with the comparator that answers true on every
  two keys, the container holding \<open>a\<close> and \<open>b\<close> yields \<open>[(b, 2), (a, 1)]\<close>, where \<open>a\<close>
  stands after \<open>b\<close> although it is less than \<open>b\<close>.
\<close>

theorem sorted_pairs_every_comparator_counterexample:
  "SortedPairs (0::int) (Set (Set (NewOrderedMap []) ''a'' 1) ''b'' 2) (Some always_less)
     = Some (Inr [\<lparr>Key = ''b'', Value = 2\<rparr>, \<lparr>Key = ''a'', Value = 1\<rparr>],
             Set (Set (NewOrderedMap []) ''a'' 1) ''b'' 2) \<and>
   \<not> sorted_by always_less [\<lparr>Key = ''b'', Value = 2::int\<rparr>, \<lparr>Key = ''a'', Value = 1\<rparr>]"
  by (simp add: SortedPairs_def Set_def NewOrderedMap_def map_index_def SliceStable_def stable_func_def
        stable_insertion_loop.simps stable_pass_loop.simps insertionSort_func_def
        insertionSort_outer.simps insertionSort_inner.simps Swap_def
      always_less_def by_key_def sorted_by_def)

text \<open>
  C6. With a comparator given at the call, \<open>SortedPairs\<close> sorts by that comparator,
  whatever comparator is registered: the registered one has no influence on the result,
  and when the given comparator is a strict weak ordering the result is the permutation of
  the snapshot that is sorted by it and keeps equivalent entries in snapshot order. Without
  a comparator at the call, \<open>SortedPairs\<close> behaves as if called with the registered
  comparator, so with a registered strict weak ordering the result is sorted by that one.
  With neither it fails with \<open>ErrComparatorRequired\<close> and sorts nothing. The registered
  comparator is the last one among the options given at construction, or none, whatever
  operations ran since. Scenario D: on the empty container without a comparator the call
  fails with \<open>ErrComparatorRequired\<close>. On the container holding the keys 2, 1, 3 with
  \<^verbatim>\<open>a < b\<close> registered, no comparator at the call gives the keys 1, 2, 3 and the comparator
  \<^verbatim>\<open>a > b\<close> at the call gives 3, 2, 1.
\<close>

theorem comparator_resolution:
  "(strict_weak_ordering f \<longrightarrow>
      (\<exists>ps. SortedPairs z m (Some f) = Some (Inr ps, m) \<and>
         mset ps = mset (Pairs z m) \<and> sorted_by f ps \<and>
         (\<forall>p q. \<not> f (Key p) (Key q) \<and> \<not> f (Key q) (Key p)
             \<longrightarrow> same_relative_order p q ps (Pairs z m)))) \<and>
   map_option fst (SortedPairs z (m\<lparr>less_fn := r\<rparr>) (Some f))
     = map_option fst (SortedPairs z m (Some f)) \<and>
   (less_fn m = Some g \<longrightarrow> SortedPairs z m None = SortedPairs z m (Some g)) \<and>
   (less_fn m = Some g \<longrightarrow> strict_weak_ordering g \<longrightarrow>
      (\<exists>ps. SortedPairs z m None = Some (Inr ps, m) \<and>
         mset ps = mset (Pairs z m) \<and> sorted_by g ps \<and>
         (\<forall>p q. \<not> g (Key p) (Key q) \<and> \<not> g (Key q) (Key p)
             \<longrightarrow> same_relative_order p q ps (Pairs z m)))) \<and>
   (less_fn m = None \<longrightarrow> SortedPairs z m None = Some (Inl ErrComparatorRequired, m)) \<and>
   less_fn (fst (run_ops z ops (NewOrderedMap opts, s))) = registered_comparator opts \<and>
   SortedPairs z (NewOrderedMap []) None = Some (Inl ErrComparatorRequired, NewOrderedMap []) \<and>
   SortedPairs 0 sample_map None
     = Some (Inr [\<lparr>Key = 1, Value = 10\<rparr>, \<lparr>Key = 2, Value = 20\<rparr>, \<lparr>Key = 3, Value = 30\<rparr>],
             sample_map) \<and>
   SortedPairs 0 sample_map (Some descending)
     = Some (Inr [\<lparr>Key = 3, Value = 30\<rparr>, \<lparr>Key = 2, Value = 20\<rparr>, \<lparr>Key = 1, Value = 10\<rparr>],
             sample_map)"
proof -
  have c1: "strict_weak_ordering f \<longrightarrow>
      (\<exists>ps. SortedPairs z m (Some f) = Some (Inr ps, m) \<and>
         mset ps = mset (Pairs z m) \<and> sorted_by f ps \<and>
         (\<forall>p q. \<not> f (Key p) (Key q) \<and> \<not> f (Key q) (Key p)
             \<longrightarrow> same_relative_order p q ps (Pairs z m)))"
    using SortedPairs_sorts [of f "Some f" m z] by blast
  have c2: "map_option fst (SortedPairs z (m\<lparr>less_fn := r\<rparr>) (Some f))
     = map_option fst (SortedPairs z m (Some f))"
    by (rule SortedPairs_override_frame)
  have c3: "less_fn m = Some g \<longrightarrow> SortedPairs z m None = SortedPairs z m (Some g)"
    by (simp add: SortedPairs_def)
  have c4: "less_fn m = Some g \<longrightarrow> strict_weak_ordering g \<longrightarrow>
      (\<exists>ps. SortedPairs z m None = Some (Inr ps, m) \<and>
         mset ps = mset (Pairs z m) \<and> sorted_by g ps \<and>
         (\<forall>p q. \<not> g (Key p) (Key q) \<and> \<not> g (Key q) (Key p)
             \<longrightarrow> same_relative_order p q ps (Pairs z m)))"
    using SortedPairs_sorts [of g None m z] by blast
  have c5: "less_fn m = None \<longrightarrow> SortedPairs z m None = Some (Inl ErrComparatorRequired, m)"
    by (simp add: SortedPairs_def)
  have c6: "less_fn (fst (run_ops z ops (NewOrderedMap opts, s))) = registered_comparator opts"
    by (simp add: less_fn_run_ops less_fn_New)
  have c7: "SortedPairs z (NewOrderedMap []) None
              = Some (Inl ErrComparatorRequired, NewOrderedMap [])"
    by (simp add: SortedPairs_def NewOrderedMap_def)
  have c8: "SortedPairs 0 sample_map None
     = Some (Inr [\<lparr>Key = 1, Value = 10\<rparr>, \<lparr>Key = 2, Value = 20\<rparr>, \<lparr>Key = 3, Value = 30\<rparr>],
             sample_map)"
    by (simp add: SortedPairs_def sample_map_def Set_def NewOrderedMap_def map_index_def SliceStable_def
      stable_func_def stable_insertion_loop.simps stable_pass_loop.simps insertionSort_func_def
      insertionSort_outer.simps insertionSort_inner.simps Swap_def by_key_def ascending_def)
  have c9: "SortedPairs 0 sample_map (Some descending)
     = Some (Inr [\<lparr>Key = 3, Value = 30\<rparr>, \<lparr>Key = 2, Value = 20\<rparr>, \<lparr>Key = 1, Value = 10\<rparr>],
             sample_map)"
    by (simp add: SortedPairs_def sample_map_def Set_def NewOrderedMap_def map_index_def SliceStable_def
      stable_func_def stable_insertion_loop.simps stable_pass_loop.simps insertionSort_func_def
      insertionSort_outer.simps insertionSort_inner.simps Swap_def by_key_def descending_def)
  from c1 c2 c3 c4 c5 c6 c7 c8 c9 show ?thesis by (intro conjI)
qed

theorem comparator_resolution_witness:
  "strict_weak_ordering descending \<and>
   less_fn sample_map = Some ascending \<and>
   strict_weak_ordering ascending \<and>
   Pairs 0 sample_map
     = [\<lparr>Key = 2, Value = 20\<rparr>, \<lparr>Key = 1, Value = 10\<rparr>, \<lparr>Key = 3, Value = 30\<rparr>] \<and>
   (\<exists>ps. SortedPairs 0 sample_map (Some descending) = Some (Inr ps, sample_map) \<and>
      mset ps = mset (Pairs 0 sample_map) \<and> sorted_by descending ps \<and>
      map Key ps = [3, 2, 1]) \<and>
   (\<exists>ps. SortedPairs 0 sample_map None = Some (Inr ps, sample_map) \<and>
      mset ps = mset (Pairs 0 sample_map) \<and> sorted_by ascending ps \<and>
      map Key ps = [1, 2, 3]) \<and>
   less_fn (Set (NewOrderedMap []) (1::int) (10::int)) = None \<and>
   SortedPairs 0 (Set (NewOrderedMap []) (1::int) (10::int)) None
     = Some (Inl ErrComparatorRequired, Set (NewOrderedMap []) 1 10)"
proof -
  have reg: "less_fn sample_map = Some ascending"
    by (simp add: sample_map_def Set_def NewOrderedMap_def)
  have none: "less_fn (Set (NewOrderedMap []) (1::int) (10::int)) = None"
    by (simp add: Set_def NewOrderedMap_def)
  have pairs: "Pairs 0 sample_map
     = [\<lparr>Key = 2, Value = 20\<rparr>, \<lparr>Key = 1, Value = 10\<rparr>, \<lparr>Key = 3, Value = 30\<rparr>]"
    by (simp add: Pairs_def sample_map_def Set_def NewOrderedMap_def map_index_def)
  note at_sample = comparator_resolution [where m = sample_map and z = 0 and f = descending
      and g = ascending and r = None and ops = "[]" and opts = "[]" and s = "()"]
  note at_single = comparator_resolution [where m = "Set (NewOrderedMap []) (1::int) (10::int)"
      and z = 0 and f = descending and g = ascending and r = None and ops = "[]" and opts = "[]"
      and s = "()"]
  from at_sample strict_weak_ordering_descending
  obtain ps where d: "SortedPairs 0 sample_map (Some descending) = Some (Inr ps, sample_map)"
    "mset ps = mset (Pairs 0 sample_map)" "sorted_by descending ps"
    by blast
  from at_sample have "SortedPairs 0 sample_map (Some descending)
     = Some (Inr [\<lparr>Key = 3, Value = 30\<rparr>, \<lparr>Key = 2, Value = 20\<rparr>, \<lparr>Key = 1, Value = 10\<rparr>],
             sample_map)"
    by blast
  with d(1) have "ps = [\<lparr>Key = 3, Value = 30\<rparr>, \<lparr>Key = 2, Value = 20\<rparr>, \<lparr>Key = 1, Value = 10\<rparr>]"
    by simp
  then have dk: "map Key ps = [3, 2, 1]" by simp
  from at_sample reg strict_weak_ordering_ascending
  obtain qs where a: "SortedPairs 0 sample_map None = Some (Inr qs, sample_map)"
    "mset qs = mset (Pairs 0 sample_map)" "sorted_by ascending qs"
    by blast
  from at_sample have "SortedPairs 0 sample_map None
     = Some (Inr [\<lparr>Key = 1, Value = 10\<rparr>, \<lparr>Key = 2, Value = 20\<rparr>, \<lparr>Key = 3, Value = 30\<rparr>],
             sample_map)"
    by blast
  with a(1) have "qs = [\<lparr>Key = 1, Value = 10\<rparr>, \<lparr>Key = 2, Value = 20\<rparr>, \<lparr>Key = 3, Value = 30\<rparr>]"
    by simp
  then have ak: "map Key qs = [1, 2, 3]" by simp
  from at_single none
  have e: "SortedPairs 0 (Set (NewOrderedMap []) (1::int) (10::int)) None
     = Some (Inl ErrComparatorRequired, Set (NewOrderedMap []) 1 10)"
    by blast
  have ex_d: "\<exists>ps. SortedPairs 0 sample_map (Some descending) = Some (Inr ps, sample_map) \<and>
      mset ps = mset (Pairs 0 sample_map) \<and> sorted_by descending ps \<and>
      map Key ps = [3, 2, 1]"
    using d dk by (intro exI [of _ ps] conjI)
  have ex_a: "\<exists>ps. SortedPairs 0 sample_map None = Some (Inr ps, sample_map) \<and>
      mset ps = mset (Pairs 0 sample_map) \<and> sorted_by ascending ps \<and>
      map Key ps = [1, 2, 3]"
    using a ak by (intro exI [of _ qs] conjI)
  from strict_weak_ordering_descending reg strict_weak_ordering_ascending pairs ex_d ex_a none e
  show ?thesis by (intro conjI)
qed

text \<open>
  C7. \<open>Upsert\<close> on an absent key stores the new value, appends the key to the order
  sequence and reports \<open>inserted = True\<close>; the callback, nil or not, is not run: the
  caller state is the one before the call. On a present key with a callback, the callback
  runs once on the stored value: its result is returned and stored with
  \<open>inserted = False\<close>, and the caller state is the one a single run leaves. On a present
  key without a callback the call fails with the update-function error.
\<close>

theorem upsert_cases:
  "(data m key = None \<longrightarrow>
      Upsert z m key newVal fn s =
        ((newVal, True, None),
         m\<lparr>data := (data m)(key \<mapsto> newVal), order := order m @ [key]\<rparr>, s)) \<and>
   (data m key = Some old \<longrightarrow>
      Upsert z m key newVal (Some f) s =
        ((fst (f old s), False, None),
         m\<lparr>data := (data m)(key \<mapsto> fst (f old s))\<rparr>, snd (f old s))) \<and>
   (data m key = Some old \<longrightarrow>
      Upsert z m key newVal None s = ((z, False, Some (ErrUpsertRequiresFn key)), m, s))"
  by (simp add: Upsert_def split: prod.splits)

theorem upsert_cases_witness:
  "data (Set (NewOrderedMap []) ''a'' (1::int)) ''b'' = None \<and>
   fst (Upsert 0 (Set (NewOrderedMap []) ''a'' (1::int)) ''b'' 5 (Some (\<lambda>old (n::nat). (old + 1, Suc n))) 0)
     = (5, True, None) \<and>
   snd (snd (Upsert 0 (Set (NewOrderedMap []) ''a'' (1::int)) ''b'' 5 (Some (\<lambda>old (n::nat). (old + 1, Suc n))) 0))
     = 0 \<and>
   data (Set (NewOrderedMap []) ''a'' (1::int)) ''a'' = Some 1 \<and>
   fst (Upsert 0 (Set (NewOrderedMap []) ''a'' (1::int)) ''a'' 10 (Some (\<lambda>old (n::nat). (old + 1, Suc n))) 0)
     = (2, False, None) \<and>
   snd (snd (Upsert 0 (Set (NewOrderedMap []) ''a'' (1::int)) ''a'' 10 (Some (\<lambda>old (n::nat). (old + 1, Suc n))) 0))
     = 1 \<and>
   fst (Upsert 0 (Set (NewOrderedMap []) ''a'' (1::int)) ''a'' 0 None (0::nat))
     = (0, False, Some (ErrUpsertRequiresFn ''a''))"
  using upsert_cases [where m = "Set (NewOrderedMap []) ''a'' (1::int)" and key = "''b''" and z = 0
      and newVal = 5 and fn = "Some (\<lambda>old (n::nat). (old + 1, Suc n))" and s = "0::nat"]
    upsert_cases [where m = "Set (NewOrderedMap []) ''a'' (1::int)" and key = "''a''" and z = 0
      and old = 1 and newVal = 10 and f = "\<lambda>old (n::nat). (old + 1, Suc n)" and s = "0::nat"]
    upsert_cases [where m = "Set (NewOrderedMap []) ''a'' (1::int)" and key = "''a''" and z = 0
      and old = 1 and newVal = 0 and s = "0::nat"]
  by (simp add: Set_def NewOrderedMap_def)

text \<open>
  C8. Whenever \<open>Upsert\<close>, \<open>SortedPairs\<close>, \<open>InsertBefore\<close> or \<open>InsertAfter\<close> returns an
  error, the container after the call, mapping and order sequence alike, is the container
  before the call.
\<close>

theorem failed_calls_keep_state:
  "(snd (snd (fst (Upsert z m key newVal fn s))) \<noteq> None \<longrightarrow> fst (snd (Upsert z m key newVal fn s)) = m) \<and>
   (\<forall>e m'. SortedPairs z m cmp = Some (Inl e, m') \<longrightarrow> m' = m) \<and>
   (fst (InsertBefore m target key v) \<noteq> None \<longrightarrow> snd (InsertBefore m target key v) = m) \<and>
   (fst (InsertAfter m target key v) \<noteq> None \<longrightarrow> snd (InsertAfter m target key v) = m)"
  by (simp add: Upsert_def SortedPairs_def InsertBefore_def InsertAfter_def Let_def
      split: option.splits prod.splits)

theorem failed_calls_keep_state_witness:
  "snd (snd (fst (Upsert 0 (Set (NewOrderedMap []) ''a'' (1::int)) ''a'' 0 None (0::nat)))) \<noteq> None \<and>
   fst (snd (Upsert 0 (Set (NewOrderedMap []) ''a'' (1::int)) ''a'' 0 None (0::nat)))
     = Set (NewOrderedMap []) ''a'' 1 \<and>
   SortedPairs 0 (Set (NewOrderedMap []) ''a'' (1::int)) None
     = Some (Inl ErrComparatorRequired, Set (NewOrderedMap []) ''a'' 1) \<and>
   fst (InsertBefore (Set (NewOrderedMap []) ''a'' (1::int)) ''x'' ''a'' 0) \<noteq> None \<and>
   snd (InsertBefore (Set (NewOrderedMap []) ''a'' (1::int)) ''x'' ''a'' 0) = Set (NewOrderedMap []) ''a'' 1 \<and>
   fst (InsertAfter (Set (NewOrderedMap []) ''a'' (1::int)) ''x'' ''a'' 0) \<noteq> None \<and>
   snd (InsertAfter (Set (NewOrderedMap []) ''a'' (1::int)) ''x'' ''a'' 0) = Set (NewOrderedMap []) ''a'' 1"
  using failed_calls_keep_state [where m = "Set (NewOrderedMap []) ''a'' (1::int)" and z = 0
      and key = "''a''" and newVal = 0 and fn = None and s = "0::nat" and cmp = None
      and target = "''x''" and v = 0]
  by (simp add: Set_def NewOrderedMap_def Upsert_def SortedPairs_def InsertBefore_def InsertAfter_def)

text \<open>
  C10. When the new key is present, \<open>InsertBefore\<close> and \<open>InsertAfter\<close> return the
  key-already-exists error and the same container, whether or not the target is present;
  the target-not-found error is returned only when the new key is absent; inserting a
  present key before itself fails with the key-already-exists error.
\<close>

theorem duplicate_key_checked_first:
  "(data m key = Some old \<longrightarrow>
      InsertBefore m target key v = (Some (ErrKeyExists key), m) \<and>
      InsertAfter m target key v = (Some (ErrKeyExists key), m)) \<and>
   (fst (InsertBefore m target key v) = Some (ErrTargetNotFound t') \<longrightarrow> data m key = None) \<and>
   (fst (InsertAfter m target key v) = Some (ErrTargetNotFound t') \<longrightarrow> data m key = None) \<and>
   (data m t = Some old \<longrightarrow> fst (InsertBefore m t t v) = Some (ErrKeyExists t))"
  by (simp add: InsertBefore_def InsertAfter_def Let_def split: option.splits)

theorem duplicate_key_checked_first_witness:
  "data (Set (NewOrderedMap []) ''a'' (1::int)) ''a'' = Some 1 \<and>
   fst (InsertBefore (Set (NewOrderedMap []) ''a'' (1::int)) ''x'' ''a'' 0) = Some (ErrKeyExists ''a'') \<and>
   fst (InsertAfter (Set (NewOrderedMap []) ''a'' (1::int)) ''x'' ''a'' 0) = Some (ErrKeyExists ''a'') \<and>
   fst (InsertBefore (Set (NewOrderedMap []) ''a'' (1::int)) ''a'' ''a'' 0) = Some (ErrKeyExists ''a'') \<and>
   fst (InsertBefore (Set (NewOrderedMap []) ''a'' (1::int)) ''x'' ''b'' 0) = Some (ErrTargetNotFound ''x'') \<and>
   fst (InsertAfter (Set (NewOrderedMap []) ''a'' (1::int)) ''x'' ''b'' 0) = Some (ErrTargetNotFound ''x'') \<and>
   data (Set (NewOrderedMap []) ''a'' (1::int)) ''b'' = None"
  using duplicate_key_checked_first [where m = "Set (NewOrderedMap []) ''a'' (1::int)" and key = "''a''"
      and old = 1 and target = "''x''" and v = 0 and t = "''a''"]
    duplicate_key_checked_first [where m = "Set (NewOrderedMap []) ''a'' (1::int)" and key = "''b''"
      and target = "''x''" and v = 0 and t' = "''x''"]
  by (simp add: Set_def NewOrderedMap_def InsertBefore_def InsertAfter_def indexOf_def)

end
